theory Spec2Isabelle
  imports Main "HOL-Library.Word"
begin

unbundle bit_operations_syntax

section \<open>SPI transport (projects/bootloader/fw/spi.c)\<close>

text \<open>
  A transfer chunk is \<^verbatim>\<open>struct spi_xfer_chunk { data, len, read, write }\<close>. The pair of the
  pointer \<^verbatim>\<open>data\<close> and the count \<^verbatim>\<open>len\<close> is the list of the \<^verbatim>\<open>len\<close> bytes found at
  \<^verbatim>\<open>data\<close>; the flags \<^verbatim>\<open>read\<close> and \<^verbatim>\<open>write\<close> are \<open>do_read\<close> and \<open>do_write\<close>.
\<close>

record spi_xfer_chunk =
  data :: "8 word list"
  do_read :: bool
  do_write :: bool

text \<open>
  The controller is the register pair \<^verbatim>\<open>struct spi { csr, data }\<close>. Writes to the data
  register are gathered per transfer into \<open>spi_log\<close> (chip select, words written), the
  instrumented view of the bus. \<open>spi_rx\<close> holds the values that successive reads of the
  data register will return: it is the device's behaviour, given from outside.
  \<open>spi_cs_flash\<close> is the value of the macro \<^verbatim>\<open>SPI_CS_FLASH\<close> and \<open>spi_flashchip\<close> the chip
  last handed to \<^verbatim>\<open>flashchip_select\<close>; both are declared in headers that are not part of
  the sources at hand and are carried as data.
\<close>

record spi =
  spi_csr :: "32 word"
  spi_rx :: "32 word list"
  spi_log :: "(nat \<times> 32 word list) list"
  spi_cs_flash :: nat
  spi_flashchip :: "32 word"

text \<open>
  \<^verbatim>\<open>do { d = spi_regs->data; } while (d & 0x80000000);\<close>
  The loop ends at the first value read whose top bit is clear. When the recorded reads
  run out before that, the loop has not ended: the result is \<open>None\<close>.
\<close>

fun spi_wait :: "32 word list \<Rightarrow> (32 word \<times> 32 word list) option" where
  "spi_wait [] = None"
| "spi_wait (d # ds) = (if d AND 0x80000000 \<noteq> 0 then spi_wait ds else Some (d, ds))"

text \<open>
  The inner \<^verbatim>\<open>for\<close> loop of \<^verbatim>\<open>spi_xfer\<close> over the bytes of one chunk. The result is the
  chunk's buffer after the loop, the words written to the data register, and the reads
  that are left.
\<close>

fun spi_xfer_bytes ::
  "bool \<Rightarrow> bool \<Rightarrow> 8 word list \<Rightarrow> 32 word list
    \<Rightarrow> (8 word list \<times> 32 word list \<times> 32 word list) option" where
  "spi_xfer_bytes r w [] rx = Some ([], [], rx)"
| "spi_xfer_bytes r w (b # bs) rx =
     (let d = (if w then ucast b else 0) OR (if r then 0x100 else 0x000) in
      if r then
        (case spi_wait rx of
           None \<Rightarrow> None
         | Some (d', rx') \<Rightarrow>
             (case spi_xfer_bytes r w bs rx' of
                None \<Rightarrow> None
              | Some (bs', tx, rx'') \<Rightarrow> Some (ucast d' # bs', d # tx, rx'')))
      else
        (case spi_xfer_bytes r w bs rx of
           None \<Rightarrow> None
         | Some (bs', tx, rx'') \<Rightarrow> Some (b # bs', d # tx, rx'')))"

text \<open>The outer \<^verbatim>\<open>while (n--)\<close> loop of \<^verbatim>\<open>spi_xfer\<close> over the chunks.\<close>

fun spi_xfer_chunks ::
  "spi_xfer_chunk list \<Rightarrow> 32 word list
    \<Rightarrow> (spi_xfer_chunk list \<times> 32 word list \<times> 32 word list) option" where
  "spi_xfer_chunks [] rx = Some ([], [], rx)"
| "spi_xfer_chunks (c # cs) rx =
     (case spi_xfer_bytes (do_read c) (do_write c) (data c) rx of
        None \<Rightarrow> None
      | Some (bs', tx, rx') \<Rightarrow>
          (case spi_xfer_chunks cs rx' of
             None \<Rightarrow> None
           | Some (cs', tx', rx'') \<Rightarrow> Some (c\<lparr>data := bs'\<rparr> # cs', tx @ tx', rx'')))"

text \<open>
  \<^verbatim>\<open>spi_xfer(cs, xfer, n)\<close>: chip select low, the chunks, chip select high. The chunk list
  stands for \<^verbatim>\<open>xfer\<close> and \<^verbatim>\<open>n\<close>.
\<close>

definition spi_xfer :: "nat \<Rightarrow> spi_xfer_chunk list \<Rightarrow> spi \<Rightarrow> (spi_xfer_chunk list \<times> spi) option" where
  "spi_xfer cs xfer hw =
     (let hw1 = hw\<lparr>spi_csr := spi_csr hw AND NOT (push_bit (16 + cs) 1)\<rparr> in
      case spi_xfer_chunks xfer (spi_rx hw1) of
        None \<Rightarrow> None
      | Some (xfer', tx, rx') \<Rightarrow>
          Some (xfer', hw1\<lparr>spi_csr := spi_csr hw1 OR push_bit (16 + cs) 1,
                            spi_rx := rx',
                            spi_log := spi_log hw1 @ [(cs, tx)]\<rparr>))"

text \<open>
  The accumulators \<^verbatim>\<open>should_e\<close>, \<^verbatim>\<open>should_ew\<close>, \<^verbatim>\<open>should_w\<close> of \<^verbatim>\<open>spi_xfer_verify\<close>, in
  that order, and the update the loop body makes for an expected byte \<open>b\<close> and a value
  \<open>d\<close> read from the data register.
\<close>

type_synonym verify_acc = "8 word \<times> 8 word \<times> 8 word"

definition verify_step :: "8 word \<Rightarrow> 32 word \<Rightarrow> verify_acc \<Rightarrow> verify_acc" where
  "verify_step b d acc =
     (case acc of (should_e, should_ew, should_w) \<Rightarrow>
        (should_e OR (if (b AND ucast d) \<noteq> b then 1 else 0),
         should_ew OR (if b \<noteq> 0xFF then 3 else 1),
         should_w OR (if b \<noteq> ucast d then 2 else 0)))"

fun spi_verify_bytes ::
  "bool \<Rightarrow> bool \<Rightarrow> 8 word list \<Rightarrow> verify_acc \<Rightarrow> 32 word list
    \<Rightarrow> (verify_acc \<times> 32 word list \<times> 32 word list) option" where
  "spi_verify_bytes r w [] acc rx = Some (acc, [], rx)"
| "spi_verify_bytes r w (b # bs) acc rx =
     (let d = (if w then ucast b else 0) OR (if r then 0x100 else 0x000) in
      if r then
        (case spi_wait rx of
           None \<Rightarrow> None
         | Some (d', rx') \<Rightarrow>
             (case spi_verify_bytes r w bs (verify_step b d' acc) rx' of
                None \<Rightarrow> None
              | Some (acc', tx, rx'') \<Rightarrow> Some (acc', d # tx, rx'')))
      else
        (case spi_verify_bytes r w bs acc rx of
           None \<Rightarrow> None
         | Some (acc', tx, rx'') \<Rightarrow> Some (acc', d # tx, rx'')))"

fun spi_verify_chunks ::
  "spi_xfer_chunk list \<Rightarrow> verify_acc \<Rightarrow> 32 word list
    \<Rightarrow> (verify_acc \<times> 32 word list \<times> 32 word list) option" where
  "spi_verify_chunks [] acc rx = Some (acc, [], rx)"
| "spi_verify_chunks (c # cs) acc rx =
     (case spi_verify_bytes (do_read c) (do_write c) (data c) acc rx of
        None \<Rightarrow> None
      | Some (acc', tx, rx') \<Rightarrow>
          (case spi_verify_chunks cs acc' rx' of
             None \<Rightarrow> None
           | Some (acc'', tx', rx'') \<Rightarrow> Some (acc'', tx @ tx', rx'')))"

text \<open>
  \<^verbatim>\<open>spi_xfer_verify(cs, xfer, n)\<close>: the caller's buffers are left as they are; the result is
  \<^verbatim>\<open>should_ew\<close> when \<^verbatim>\<open>should_e\<close> is set and \<^verbatim>\<open>should_w\<close> otherwise.
\<close>

definition verify_result :: "verify_acc \<Rightarrow> 8 word" where
  "verify_result acc =
     (case acc of (should_e, should_ew, should_w) \<Rightarrow>
        if should_e \<noteq> 0 then should_ew else should_w)"

definition spi_xfer_verify :: "nat \<Rightarrow> spi_xfer_chunk list \<Rightarrow> spi \<Rightarrow> (8 word \<times> spi) option" where
  "spi_xfer_verify cs xfer hw =
     (let hw1 = hw\<lparr>spi_csr := spi_csr hw AND NOT (push_bit (16 + cs) 1)\<rparr> in
      case spi_verify_chunks xfer (0, 0, 0) (spi_rx hw1) of
        None \<Rightarrow> None
      | Some (acc, tx, rx') \<Rightarrow>
          Some (verify_result acc,
                hw1\<lparr>spi_csr := spi_csr hw1 OR push_bit (16 + cs) 1,
                     spi_rx := rx',
                     spi_log := spi_log hw1 @ [(cs, tx)]\<rparr>))"

section \<open>NOR flash driver (spi.c)\<close>

text \<open>
  \<^verbatim>\<open>{ cmd, (addr >> 16) & 0xff, (addr >> 8) & 0xff, addr & 0xff }\<close>: the four command bytes
  of the addressed commands.
\<close>

definition flash_addr_cmd :: "8 word \<Rightarrow> 32 word \<Rightarrow> 8 word list" where
  "flash_addr_cmd cmd addr =
     [cmd, ucast (drop_bit 16 addr AND 0xff), ucast (drop_bit 8 addr AND 0xff), ucast (addr AND 0xff)]"

definition FLASH_CMD_WRITE_ENABLE :: "8 word" where "FLASH_CMD_WRITE_ENABLE = 0x06"
definition FLASH_CMD_READ_SR1 :: "8 word" where "FLASH_CMD_READ_SR1 = 0x05"
definition FLASH_CMD_READ_DATA :: "8 word" where "FLASH_CMD_READ_DATA = 0x03"
definition FLASH_CMD_PAGE_PROGRAM :: "8 word" where "FLASH_CMD_PAGE_PROGRAM = 0x02"
definition FLASH_CMD_SECTOR_ERASE :: "8 word" where "FLASH_CMD_SECTOR_ERASE = 0x20"

definition flash_cmd :: "8 word \<Rightarrow> spi \<Rightarrow> spi option" where
  "flash_cmd cmd hw =
     map_option snd
       (spi_xfer (spi_cs_flash hw) [\<lparr>data = [cmd], do_read = False, do_write = True\<rparr>] hw)"

definition flash_write_enable :: "spi \<Rightarrow> spi option" where
  "flash_write_enable hw = flash_cmd FLASH_CMD_WRITE_ENABLE hw"

text \<open>
  \<^verbatim>\<open>flash_read_sr\<close>: the local \<^verbatim>\<open>rv\<close> is not initialised in the source; the read chunk
  overwrites its one byte, so the value it starts from (here 0) never shows.
\<close>

definition flash_read_sr :: "spi \<Rightarrow> (8 word \<times> spi) option" where
  "flash_read_sr hw =
     (case spi_xfer (spi_cs_flash hw)
             [\<lparr>data = [FLASH_CMD_READ_SR1], do_read = False, do_write = True\<rparr>,
              \<lparr>data = [0], do_read = True, do_write = False\<rparr>] hw of
        None \<Rightarrow> None
      | Some (xfer', hw') \<Rightarrow> Some (hd (data (xfer' ! 1)), hw'))"

text \<open>
  \<^verbatim>\<open>flash_read(dst, addr, len)\<close>: \<open>dst\<close> is the list of the \<^verbatim>\<open>len\<close> bytes at \<^verbatim>\<open>dst\<close> before
  the call; the result holds them after it.
\<close>

definition flash_read :: "8 word list \<Rightarrow> 32 word \<Rightarrow> spi \<Rightarrow> (8 word list \<times> spi) option" where
  "flash_read dst addr hw =
     (case spi_xfer (spi_cs_flash hw)
             [\<lparr>data = flash_addr_cmd FLASH_CMD_READ_DATA addr, do_read = False, do_write = True\<rparr>,
              \<lparr>data = dst, do_read = True, do_write = False\<rparr>] hw of
        None \<Rightarrow> None
      | Some (xfer', hw') \<Rightarrow> Some (data (xfer' ! 1), hw'))"

definition flash_verify :: "8 word list \<Rightarrow> 32 word \<Rightarrow> spi \<Rightarrow> (8 word \<times> spi) option" where
  "flash_verify dst addr hw =
     spi_xfer_verify (spi_cs_flash hw)
       [\<lparr>data = flash_addr_cmd FLASH_CMD_READ_DATA addr, do_read = False, do_write = True\<rparr>,
        \<lparr>data = dst, do_read = True, do_write = False\<rparr>] hw"

definition flash_page_program :: "8 word list \<Rightarrow> 32 word \<Rightarrow> spi \<Rightarrow> spi option" where
  "flash_page_program src addr hw =
     map_option snd
       (spi_xfer (spi_cs_flash hw)
          [\<lparr>data = flash_addr_cmd FLASH_CMD_PAGE_PROGRAM addr, do_read = False, do_write = True\<rparr>,
           \<lparr>data = src, do_read = False, do_write = True\<rparr>] hw)"

definition flash_erase :: "8 word \<Rightarrow> 32 word \<Rightarrow> spi \<Rightarrow> spi option" where
  "flash_erase cmd_byte addr hw =
     map_option snd
       (spi_xfer (spi_cs_flash hw)
          [\<lparr>data = flash_addr_cmd cmd_byte addr, do_read = False, do_write = True\<rparr>] hw)"

definition flash_sector_erase :: "32 word \<Rightarrow> spi \<Rightarrow> spi option" where
  "flash_sector_erase addr hw = flash_erase FLASH_CMD_SECTOR_ERASE addr hw"

text \<open>
  \<^verbatim>\<open>flashchip_select\<close> is declared outside the sources at hand. Modelled from the spec:
  \<^verbatim>\<open>chip_select(id)\<close> switches the active flash chip; it is no transfer on the bus.
\<close>

definition flashchip_select :: "32 word \<Rightarrow> spi \<Rightarrow> spi" where
  "flashchip_select chip hw = hw\<lparr>spi_flashchip := chip\<rparr>"

section \<open>DFU state (usb_dfu.c)\<close>

text \<open>
  The enumerators of \<^verbatim>\<open>enum dfu_state\<close> in the order in which \<^verbatim>\<open>dfu_valid_req\<close> lists them,
  the two enumerators of \<^verbatim>\<open>enum dfu_status\<close> that the file uses, and the writer's
  operation.
\<close>

datatype dfu_state =
  appIDLE | appDETACH | dfuIDLE | dfuDNLOAD_SYNC | dfuDNBUSY | dfuDNLOAD_IDLE
  | dfuMANIFEST_SYNC | dfuMANIFEST | dfuMANIFEST_WAIT_RESET | dfuUPLOAD_IDLE | dfuERROR

datatype dfu_status = OK | errUNKNOWN

datatype flash_op = FL_IDLE | FL_ERASE | FL_PROGRAM

text \<open>
  The aggregate \<^verbatim>\<open>g_dfu\<close> with its members \<^verbatim>\<open>buf\<close> and \<^verbatim>\<open>flash\<close> laid out flat, the two
  statics \<^verbatim>\<open>prog_retry\<close> and \<^verbatim>\<open>should\<close>, the SPI controller, and two records that the
  source does not keep: \<open>reboots\<close> counts the calls of the hook \<^verbatim>\<open>usb_dfu_cb_reboot\<close>, and
  \<open>overruns\<close> logs the stores through a buffer pointer that land past the end of
  \<^verbatim>\<open>data[2][4096]\<close>, each by the offset behind the array at which it lands. \<open>buf_data\<close> is the
  memory of \<^verbatim>\<open>data[2][4096]\<close> addressed by the byte offset from \<^verbatim>\<open>&data[0][0]\<close>, so that
  \<^verbatim>\<open>data[k][i]\<close> is at \<open>4096 * k + i\<close>. \<^verbatim>\<open>op_ofs\<close> and \<^verbatim>\<open>op_len\<close> are C \<^verbatim>\<open>int\<close>s, kept as their
  32-bit patterns.
\<close>

record dfu =
  state :: dfu_state
  status :: dfu_status
  intf :: "8 word"
  alt :: "8 word"
  tick :: "8 word"
  buf_used :: "8 word"
  buf_wr :: "8 word"
  buf_rd :: "8 word"
  buf_data :: "int \<Rightarrow> 8 word"
  addr_recv :: "32 word"
  addr_read :: "32 word"
  addr_prog :: "32 word"
  addr_erase :: "32 word"
  addr_end :: "32 word"
  selected :: "32 word"
  op_ofs :: "32 word"
  op_len :: "32 word"
  flash_op :: flash_op
  prog_retry :: "32 word"
  should :: "8 word"
  hw :: spi
  reboots :: nat
  overruns :: "nat list"

text \<open>
  What a pointer into the array reaches. \<^verbatim>\<open>g_dfu.buf\<close> is three bytes, one byte of padding
  and the 8192 bytes of \<^verbatim>\<open>data\<close>, 8196 bytes in all, and \<^verbatim>\<open>g_dfu.flash\<close> follows it without a
  gap. The byte at offset \<open>8192 + k\<close> from \<^verbatim>\<open>&data[0][0]\<close> is therefore byte \<open>k\<close> of
  \<^verbatim>\<open>g_dfu.flash\<close>: nine members of four bytes each (\<^verbatim>\<open>uint32_t\<close>, \<^verbatim>\<open>int\<close> and the enumeration
  are 32 bits wide on the target, which stores the low byte first), \<^verbatim>\<open>addr_recv\<close> first,
  36 bytes up to the end of \<^verbatim>\<open>g_dfu\<close>. The C language gives an access past the end of the
  array no meaning; the model follows the layout as far as \<^verbatim>\<open>g_dfu\<close> goes.
\<close>

definition word_byte :: "32 word \<Rightarrow> nat \<Rightarrow> 8 word" where
  "word_byte w k = ucast (drop_bit (8 * k) w)"

definition word_set_byte :: "nat \<Rightarrow> 8 word \<Rightarrow> 32 word \<Rightarrow> 32 word" where
  "word_set_byte k v w = (w AND NOT (push_bit (8 * k) 0xff)) OR push_bit (8 * k) (ucast v)"

fun flash_op_val :: "flash_op \<Rightarrow> 32 word" where
  "flash_op_val FL_IDLE = 0"
| "flash_op_val FL_ERASE = 1"
| "flash_op_val FL_PROGRAM = 2"

definition flash_op_of :: "32 word \<Rightarrow> flash_op option" where
  "flash_op_of w =
     (if w = 0 then Some FL_IDLE else if w = 1 then Some FL_ERASE
      else if w = 2 then Some FL_PROGRAM else None)"

text \<open>Byte \<open>k\<close> of \<^verbatim>\<open>g_dfu.flash\<close>, for \<open>k\<close> below 36.\<close>

definition flash_load :: "dfu \<Rightarrow> nat \<Rightarrow> 8 word" where
  "flash_load s k =
     word_byte
       ([addr_recv s, addr_read s, addr_prog s, addr_erase s, addr_end s, selected s,
         op_ofs s, op_len s, flash_op_val (flash_op s)] ! (k div 4))
       (k mod 4)"

text \<open>
  A store to byte \<open>k\<close> of \<^verbatim>\<open>g_dfu.flash\<close>. A store that leaves in \<^verbatim>\<open>op\<close> a value that is none
  of the three enumerators has no result: the writer of the model has no such state.
\<close>

definition flash_store :: "nat \<Rightarrow> 8 word \<Rightarrow> dfu \<Rightarrow> dfu option" where
  "flash_store k v s =
     (let f = word_set_byte (k mod 4) v; m = k div 4 in
      if m = 0 then Some (s\<lparr>addr_recv := f (addr_recv s)\<rparr>)
      else if m = 1 then Some (s\<lparr>addr_read := f (addr_read s)\<rparr>)
      else if m = 2 then Some (s\<lparr>addr_prog := f (addr_prog s)\<rparr>)
      else if m = 3 then Some (s\<lparr>addr_erase := f (addr_erase s)\<rparr>)
      else if m = 4 then Some (s\<lparr>addr_end := f (addr_end s)\<rparr>)
      else if m = 5 then Some (s\<lparr>selected := f (selected s)\<rparr>)
      else if m = 6 then Some (s\<lparr>op_ofs := f (op_ofs s)\<rparr>)
      else if m = 7 then Some (s\<lparr>op_len := f (op_len s)\<rparr>)
      else if m = 8 then
        map_option (\<lambda>x. s\<lparr>flash_op := x\<rparr>) (flash_op_of (f (flash_op_val (flash_op s))))
      else None)"

text \<open>
  The byte at offset \<open>a\<close> from \<^verbatim>\<open>&data[0][0]\<close>, read and written. Inside the array it is
  \<open>buf_data\<close>; in the 36 bytes behind it, the members of \<^verbatim>\<open>g_dfu.flash\<close>, and a store there
  is logged in \<open>overruns\<close>. Beyond \<^verbatim>\<open>g_dfu\<close> the sources do not say what the memory holds,
  and no pointer of the source is indexed downwards from the array: a store at such an
  offset has no result, and a read takes the byte from \<open>buf_data\<close>, which stands there for
  memory that the model does not describe and that no store of the model changes.
\<close>

definition dfu_load :: "dfu \<Rightarrow> int \<Rightarrow> 8 word" where
  "dfu_load s a =
     (if 8192 \<le> a \<and> a < 8228 then flash_load s (nat (a - 8192)) else buf_data s a)"

definition dfu_store :: "int \<Rightarrow> 8 word \<Rightarrow> dfu \<Rightarrow> dfu option" where
  "dfu_store a v s =
     (if 0 \<le> a \<and> a < 8192 then Some (s\<lparr>buf_data := (buf_data s)(a := v)\<rparr>)
      else if 8192 \<le> a \<and> a < 8228 then
        map_option (\<lambda>s'. s'\<lparr>overruns := overruns s' @ [nat (a - 8192)]\<rparr>)
          (flash_store (nat (a - 8192)) v s)
      else None)"

text \<open>The bytes \<open>vs\<close> stored from offset \<open>a\<close> upwards, one after the other.\<close>

fun dfu_store_bytes :: "int \<Rightarrow> 8 word list \<Rightarrow> dfu \<Rightarrow> dfu option" where
  "dfu_store_bytes a [] s = Some s"
| "dfu_store_bytes a (v # vs) s =
     (case dfu_store a v s of None \<Rightarrow> None | Some s' \<Rightarrow> dfu_store_bytes (a + 1) vs s')"

text \<open>The \<open>n\<close> bytes at \<^verbatim>\<open>&g_dfu.buf.data[k][i]\<close>.\<close>

definition buf_bytes :: "dfu \<Rightarrow> 8 word \<Rightarrow> 32 word \<Rightarrow> nat \<Rightarrow> 8 word list" where
  "buf_bytes s k i n = map (\<lambda>j. dfu_load s (4096 * uint k + sint i + int j)) [0..<n]"

text \<open>
  \<^verbatim>\<open>usb_dfu_cb_reboot\<close>: the weak default does nothing; the model counts the call.
\<close>

definition usb_dfu_cb_reboot :: "dfu \<Rightarrow> dfu" where
  "usb_dfu_cb_reboot s = s\<lparr>reboots := reboots s + 1\<rparr>"

section \<open>The flash writer task\<close>

text \<open>\<^verbatim>\<open>#define PROG_RETRY 4\<close> and \<^verbatim>\<open>if (prog_retry) prog_retry--;\<close>\<close>

definition PROG_RETRY :: "32 word" where "PROG_RETRY = 4"


definition retry_dec :: "32 word \<Rightarrow> 32 word" where
  "retry_dec r = (if r \<noteq> 0 then r - 1 else r)"

text \<open>The branch \<^verbatim>\<open>if (prog_retry == 0) { ... return; }\<close>.\<close>

definition tick_fatal :: "dfu \<Rightarrow> dfu" where
  "tick_fatal s =
     usb_dfu_cb_reboot
       (s\<lparr>flash_op := FL_IDLE, buf_rd := buf_rd s XOR 1, buf_used := buf_used s - 1\<rparr>)"

text \<open>
  The block \<^verbatim>\<open>if (g_dfu.flash.op == FL_ERASE) { ... }\<close> with \<^verbatim>\<open>ERASE_SIZE_KB\<close> = 4. The
  locals \<^verbatim>\<open>l\<close> and \<^verbatim>\<open>pl\<close> of this block are computed and never used, and the debug prints
  have no effect on the state; both are left out.
\<close>

definition tick_erase :: "dfu \<Rightarrow> dfu option" where
  "tick_erase s =
     (if flash_op s = FL_ERASE then
        (case flash_verify (buf_bytes s (buf_rd s) (op_ofs s) (4 * 1024)) (addr_prog s) (hw s) of
           None \<Rightarrow> None
         | Some (sh, hw1) \<Rightarrow>
             let s1 = s\<lparr>should := sh, hw := hw1\<rparr> in
             if sh AND 1 = 0 then
               Some (s1\<lparr>addr_erase := addr_prog s1 + 4 * 1024, flash_op := FL_PROGRAM\<rparr>)
             else
               let s2 = s1\<lparr>prog_retry := retry_dec (prog_retry s1), addr_erase := addr_prog s1\<rparr> in
               (case flash_write_enable (hw s2) of
                  None \<Rightarrow> None
                | Some hw2 \<Rightarrow>
                    (case flash_sector_erase (addr_erase s2) hw2 of
                       None \<Rightarrow> None
                     | Some hw3 \<Rightarrow> Some (s2\<lparr>hw := hw3, addr_erase := addr_erase s2 + 4096\<rparr>))))
      else Some s)"

text \<open>The block \<^verbatim>\<open>if (g_dfu.flash.op == FL_PROGRAM) { ... }\<close>.\<close>

definition tick_program :: "dfu \<Rightarrow> dfu option" where
  "tick_program s =
     (if flash_op s = FL_PROGRAM then
        if should s AND 2 = 0 then
          Some (s\<lparr>prog_retry := PROG_RETRY,
                  addr_prog := addr_prog s + op_len s,
                  buf_rd := buf_rd s XOR 1,
                  buf_used := buf_used s - 1,
                  flash_op := FL_IDLE\<rparr>)
        else if op_ofs s = op_len s then
          Some (s\<lparr>prog_retry := retry_dec (prog_retry s),
                  op_len := 4096,
                  op_ofs := 0,
                  flash_op := FL_IDLE\<rparr>)
        else
          let l0 = op_len s - op_ofs s;
              pl = 256 - ((addr_prog s + op_ofs s) AND 0xff);
              l = (if l0 > pl then pl else l0)
          in
          (case flash_write_enable (hw s) of
             None \<Rightarrow> None
           | Some hw1 \<Rightarrow>
               (case flash_page_program (buf_bytes s (buf_rd s) (op_ofs s) (unat l))
                       (addr_prog s + op_ofs s) hw1 of
                  None \<Rightarrow> None
                | Some hw2 \<Rightarrow> Some (s\<lparr>hw := hw2, op_ofs := op_ofs s + l\<rparr>)))
      else Some s)"

text \<open>
  The tick from \<^verbatim>\<open>flashchip_select\<close> on: what runs once the tick has found work and has
  not found the flash busy.
\<close>

definition tick_work :: "dfu \<Rightarrow> dfu option" where
  "tick_work s =
     (let s1 = s\<lparr>hw := flashchip_select (selected s) (hw s)\<rparr> in
      if prog_retry s1 = 0 then Some (tick_fatal s1)
      else
        (case tick_erase s1 of
           None \<Rightarrow> None
         | Some s2 \<Rightarrow> tick_program s2))"

text \<open>
  \<^verbatim>\<open>_dfu_tick\<close>. \<^verbatim>\<open>DFU_SOF_POLL_LIMIT\<close> is undefined in the file, so the rate limit is
  compiled out.
\<close>

definition dfu_tick :: "dfu \<Rightarrow> dfu option" where
  "dfu_tick s =
     (if flash_op s = FL_IDLE then
        if buf_used s \<noteq> 0 then
          tick_work (s\<lparr>flash_op := FL_ERASE, op_len := 4096, op_ofs := 0\<rparr>)
        else Some s
      else
        (case flash_read_sr (hw s) of
           None \<Rightarrow> None
         | Some (sr, hw1) \<Rightarrow>
             if sr AND 1 \<noteq> 0 then Some (s\<lparr>hw := hw1\<rparr>)
             else tick_work (s\<lparr>hw := hw1\<rparr>)))"

section \<open>The DFU protocol machine (usb_dfu.c)\<close>

subsection \<open>What the USB stack hands in\<close>

text \<open>
  \<^verbatim>\<open>struct usb_ctrl_req\<close>, \<^verbatim>\<open>struct usb_xfer\<close>, \<^verbatim>\<open>struct usb_intf_desc\<close>, \<^verbatim>\<open>enum usb_fnd_resp\<close>
  and the request macros are declared in the USB stack's headers, which are not part of
  the sources at hand. Modelled from the spec: the setup packet with the fields the
  handler reads; the request numbers and directions of the DFU request table; class
  0xfe, subclass 0x01, protocol 0x02; the three dispositions. The request type byte has
  the layout of the USB standard that the spec's "type" and "recipient" refer to
  (bits 6..5 the type, bits 4..0 the recipient), and \<^verbatim>\<open>wRequestAndType\<close> is the 16-bit
  view of the request number (high byte) and the type byte (low byte).
\<close>

record usb_ctrl_req =
  bmRequestType :: "8 word"
  bRequest :: "8 word"
  wValue :: "16 word"
  wIndex :: "16 word"
  wLength :: "16 word"

definition wRequestAndType :: "usb_ctrl_req \<Rightarrow> 16 word" where
  "wRequestAndType req = push_bit 8 (ucast (bRequest req)) OR ucast (bmRequestType req)"

definition USB_REQ_TYPE :: "usb_ctrl_req \<Rightarrow> 8 word" where
  "USB_REQ_TYPE req = bmRequestType req AND 0x60"

definition USB_REQ_RCPT :: "usb_ctrl_req \<Rightarrow> 8 word" where
  "USB_REQ_RCPT req = bmRequestType req AND 0x1f"

definition USB_REQ_TYPE_CLASS :: "8 word" where "USB_REQ_TYPE_CLASS = 0x20"
definition USB_REQ_TYPE_VENDOR :: "8 word" where "USB_REQ_TYPE_VENDOR = 0x40"
definition USB_REQ_RCPT_INTF :: "8 word" where "USB_REQ_RCPT_INTF = 0x01"

definition USB_REQ_DFU_DETACH :: nat where "USB_REQ_DFU_DETACH = 0"
definition USB_REQ_DFU_DNLOAD :: nat where "USB_REQ_DFU_DNLOAD = 1"
definition USB_REQ_DFU_UPLOAD :: nat where "USB_REQ_DFU_UPLOAD = 2"
definition USB_REQ_DFU_GETSTATUS :: nat where "USB_REQ_DFU_GETSTATUS = 3"
definition USB_REQ_DFU_CLRSTATUS :: nat where "USB_REQ_DFU_CLRSTATUS = 4"
definition USB_REQ_DFU_GETSTATE :: nat where "USB_REQ_DFU_GETSTATE = 5"
definition USB_REQ_DFU_ABORT :: nat where "USB_REQ_DFU_ABORT = 6"

definition USB_RT_DFU_DETACH :: "16 word" where "USB_RT_DFU_DETACH = 0x0021"
definition USB_RT_DFU_DNLOAD :: "16 word" where "USB_RT_DFU_DNLOAD = 0x0121"
definition USB_RT_DFU_UPLOAD :: "16 word" where "USB_RT_DFU_UPLOAD = 0x02a1"
definition USB_RT_DFU_GETSTATUS :: "16 word" where "USB_RT_DFU_GETSTATUS = 0x03a1"
definition USB_RT_DFU_CLRSTATUS :: "16 word" where "USB_RT_DFU_CLRSTATUS = 0x0421"
definition USB_RT_DFU_GETSTATE :: "16 word" where "USB_RT_DFU_GETSTATE = 0x05a1"
definition USB_RT_DFU_ABORT :: "16 word" where "USB_RT_DFU_ABORT = 0x0621"

datatype usb_fnd_resp = USB_FND_CONTINUE | USB_FND_SUCCESS | USB_FND_ERROR

text \<open>
  The transfer: \<^verbatim>\<open>data\<close> points either into the buffer the stack came with (\<open>xfer_own\<close>,
  offset 0 where the pointer stands) or into \<^verbatim>\<open>g_dfu.buf.data\<close> at a byte offset;
  \<^verbatim>\<open>cb_done\<close> is one of the two callbacks of this file, or unset.
\<close>

datatype xfer_ptr = XferOwn | DfuBuf int

datatype xfer_cb = Dfu_detach_done_cb | Dfu_dnload_done_cb

record usb_xfer =
  xfer_data :: xfer_ptr
  xfer_len :: "32 word"
  xfer_cb_done :: "xfer_cb option"
  xfer_own :: "nat \<Rightarrow> 8 word"

record usb_intf_desc =
  bInterfaceNumber :: "8 word"
  bAlternateSetting :: "8 word"
  bInterfaceClass :: "8 word"
  bInterfaceSubClass :: "8 word"
  bInterfaceProtocol :: "8 word"

text \<open>
  The numeric values of the enumerators, as they are stored into the reply bytes. A state
  has the index at which \<^verbatim>\<open>dfu_valid_req\<close> lists it. For the status the header is absent:
  modelled from the spec, which takes the set from DFU 1.1 (\<open>OK\<close> is 0x00, \<open>errUNKNOWN\<close> is
  0x0e).
\<close>

fun dfu_state_val :: "dfu_state \<Rightarrow> 8 word" where
  "dfu_state_val appIDLE = 0"
| "dfu_state_val appDETACH = 1"
| "dfu_state_val dfuIDLE = 2"
| "dfu_state_val dfuDNLOAD_SYNC = 3"
| "dfu_state_val dfuDNBUSY = 4"
| "dfu_state_val dfuDNLOAD_IDLE = 5"
| "dfu_state_val dfuMANIFEST_SYNC = 6"
| "dfu_state_val dfuMANIFEST = 7"
| "dfu_state_val dfuMANIFEST_WAIT_RESET = 8"
| "dfu_state_val dfuUPLOAD_IDLE = 9"
| "dfu_state_val dfuERROR = 10"

fun dfu_status_val :: "dfu_status \<Rightarrow> 8 word" where
  "dfu_status_val OK = 0x00"
| "dfu_status_val errUNKNOWN = 0x0e"

subsection \<open>Tables\<close>

definition req_bit :: "nat \<Rightarrow> 32 word" where
  "req_bit n = push_bit n 1"

fun dfu_valid_req :: "dfu_state \<Rightarrow> 32 word" where
  "dfu_valid_req appIDLE =
     req_bit USB_REQ_DFU_DETACH OR req_bit USB_REQ_DFU_GETSTATUS OR req_bit USB_REQ_DFU_GETSTATE OR 0"
| "dfu_valid_req appDETACH =
     req_bit USB_REQ_DFU_GETSTATUS OR req_bit USB_REQ_DFU_GETSTATE OR 0"
| "dfu_valid_req dfuIDLE =
     req_bit USB_REQ_DFU_DETACH OR req_bit USB_REQ_DFU_DNLOAD OR req_bit USB_REQ_DFU_UPLOAD OR
     req_bit USB_REQ_DFU_GETSTATUS OR req_bit USB_REQ_DFU_GETSTATE OR req_bit USB_REQ_DFU_ABORT OR 0"
| "dfu_valid_req dfuDNLOAD_SYNC =
     req_bit USB_REQ_DFU_DNLOAD OR req_bit USB_REQ_DFU_GETSTATUS OR req_bit USB_REQ_DFU_GETSTATE OR
     req_bit USB_REQ_DFU_ABORT OR 0"
| "dfu_valid_req dfuDNBUSY = 0"
| "dfu_valid_req dfuDNLOAD_IDLE =
     req_bit USB_REQ_DFU_DNLOAD OR req_bit USB_REQ_DFU_GETSTATUS OR req_bit USB_REQ_DFU_GETSTATE OR
     req_bit USB_REQ_DFU_ABORT OR 0"
| "dfu_valid_req dfuMANIFEST_SYNC =
     req_bit USB_REQ_DFU_GETSTATUS OR req_bit USB_REQ_DFU_GETSTATE OR req_bit USB_REQ_DFU_ABORT OR 0"
| "dfu_valid_req dfuMANIFEST = 0"
| "dfu_valid_req dfuMANIFEST_WAIT_RESET = 0"
| "dfu_valid_req dfuUPLOAD_IDLE =
     req_bit USB_REQ_DFU_UPLOAD OR req_bit USB_REQ_DFU_GETSTATUS OR req_bit USB_REQ_DFU_GETSTATE OR
     req_bit USB_REQ_DFU_ABORT OR 0"
| "dfu_valid_req dfuERROR =
     req_bit USB_REQ_DFU_GETSTATUS OR req_bit USB_REQ_DFU_CLRSTATUS OR req_bit USB_REQ_DFU_GETSTATE OR 0"

text \<open>
  \<^verbatim>\<open>FLASHCHIP_INTERNAL\<close> and \<^verbatim>\<open>FLASHCHIP_CART\<close> are macros of an absent header. Modelled from
  the spec: two chip ids, internal and cart; the numbers 0 and 1 only tell them apart.
\<close>

definition FLASHCHIP_INTERNAL :: "32 word" where "FLASHCHIP_INTERNAL = 0"
definition FLASHCHIP_CART :: "32 word" where "FLASHCHIP_CART = 1"

record dfu_zone =
  flashsel :: "32 word"
  zone_start :: "32 word"
  zone_end :: "32 word"

definition dfu_zones :: "dfu_zone list" where
  "dfu_zones =
     [\<lparr>flashsel = FLASHCHIP_INTERNAL, zone_start = 0x00200000, zone_end = 0x01000000\<rparr>,
      \<lparr>flashsel = FLASHCHIP_INTERNAL, zone_start = 0x00340000, zone_end = 0x00380000\<rparr>,
      \<lparr>flashsel = FLASHCHIP_INTERNAL, zone_start = 0x00380000, zone_end = 0x01000000\<rparr>,
      \<lparr>flashsel = FLASHCHIP_INTERNAL, zone_start = 0x00400000, zone_end = 0x01000000\<rparr>,
      \<lparr>flashsel = FLASHCHIP_INTERNAL, zone_start = 0x00800000, zone_end = 0x01000000\<rparr>,
      \<lparr>flashsel = FLASHCHIP_INTERNAL, zone_start = 0x00000000, zone_end = 0x00200000\<rparr>,
      \<lparr>flashsel = FLASHCHIP_CART, zone_start = 0x00000000, zone_end = 0x00000100\<rparr>]"

text \<open>
  \<^verbatim>\<open>dfu_zones[i]\<close>: the array has seven entries and the source checks no bound; a read past
  the end has no defined result, which is \<open>None\<close> here.
\<close>

definition zone_at :: "8 word \<Rightarrow> dfu_zone option" where
  "zone_at i = (if unat i < length dfu_zones then Some (dfu_zones ! unat i) else None)"

subsection \<open>The writer pumped from the control path\<close>

text \<open>
  The loop \<^verbatim>\<open>while (g_dfu.buf.used) _dfu_tick();\<close> of the status request. Each turn either
  consumes a recorded read of the data register or releases a buffer, which bounds the
  loop; the facts that show it come first.
\<close>

lemma spi_wait_shorter: "spi_wait rx = Some (d, rx') \<Longrightarrow> length rx' < length rx"
  by (induction rx) (auto split: if_splits)

lemma spi_xfer_bytes_wo:
  "spi_xfer_bytes False w bs rx = Some (bs, map (\<lambda>b. if w then ucast b else 0) bs, rx)"
  by (induction bs) auto

lemma spi_xfer_bytes_rd:
  "spi_xfer_bytes True w bs rx = Some (bs', tx, rx') \<Longrightarrow>
     length rx' + length bs \<le> length rx \<and> length bs' = length bs \<and>
     tx = map (\<lambda>b. (if w then ucast b else 0) OR 0x100) bs"
proof (induction bs arbitrary: rx bs' tx rx')
  case Nil
  then show ?case by simp
next
  case (Cons b bs)
  then show ?case
    by (fastforce simp: Let_def split: option.splits prod.splits dest: spi_wait_shorter)
qed

lemma spi_verify_bytes_wo:
  "spi_verify_bytes False w bs acc rx = Some (acc, map (\<lambda>b. if w then ucast b else 0) bs, rx)"
  by (induction bs) auto

lemma spi_verify_bytes_rd:
  "spi_verify_bytes True w bs acc rx = Some (acc', tx, rx') \<Longrightarrow>
     length rx' + length bs \<le> length rx \<and>
     tx = map (\<lambda>b. (if w then ucast b else 0) OR 0x100) bs"
proof (induction bs arbitrary: rx acc acc' tx rx')
  case Nil
  then show ?case by simp
next
  case (Cons b bs)
  from Cons.prems obtain d rx1 tx1 where
    w: "spi_wait rx = Some (d, rx1)" and
    tx: "tx = ((if w then ucast b else 0) OR 0x100) # tx1" and
    r: "spi_verify_bytes True w bs (verify_step b d acc) rx1 = Some (acc', tx1, rx')"
    by (auto simp: Let_def split: option.splits)
  from Cons.IH [OF r] spi_wait_shorter [OF w] tx show ?case by simp
qed

text \<open>
  The write-only commands never wait for the device, so they always return, and what
  they do to the controller is known in full.
\<close>

definition cs_pulse :: "spi \<Rightarrow> 32 word" where
  "cs_pulse h =
     (spi_csr h AND NOT (push_bit (16 + spi_cs_flash h) 1)) OR push_bit (16 + spi_cs_flash h) 1"

lemma flash_cmd_eq:
  "flash_cmd cmd h =
     Some (h\<lparr>spi_csr := cs_pulse h, spi_log := spi_log h @ [(spi_cs_flash h, [ucast cmd])]\<rparr>)"
  by (simp add: flash_cmd_def spi_xfer_def spi_xfer_bytes_wo cs_pulse_def)

lemma flash_write_enable_eq:
  "flash_write_enable h =
     Some (h\<lparr>spi_csr := cs_pulse h,
             spi_log := spi_log h @ [(spi_cs_flash h, [ucast FLASH_CMD_WRITE_ENABLE])]\<rparr>)"
  by (simp add: flash_write_enable_def flash_cmd_eq)

lemma flash_erase_eq:
  "flash_erase cmd addr h =
     Some (h\<lparr>spi_csr := cs_pulse h,
             spi_log := spi_log h @ [(spi_cs_flash h, map ucast (flash_addr_cmd cmd addr))]\<rparr>)"
  by (simp add: flash_erase_def spi_xfer_def spi_xfer_bytes_wo cs_pulse_def)

lemma flash_sector_erase_eq:
  "flash_sector_erase addr h =
     Some (h\<lparr>spi_csr := cs_pulse h,
             spi_log := spi_log h @
               [(spi_cs_flash h, map ucast (flash_addr_cmd FLASH_CMD_SECTOR_ERASE addr))]\<rparr>)"
  by (simp add: flash_sector_erase_def flash_erase_eq)

lemma flash_page_program_eq:
  "flash_page_program src addr h =
     Some (h\<lparr>spi_csr := cs_pulse h,
             spi_log := spi_log h @
               [(spi_cs_flash h,
                 map ucast (flash_addr_cmd FLASH_CMD_PAGE_PROGRAM addr) @ map ucast src)]\<rparr>)"
  by (simp add: flash_page_program_def spi_xfer_def spi_xfer_bytes_wo cs_pulse_def)

lemmas flash_wo_eqs = flash_write_enable_eq flash_sector_erase_eq flash_page_program_eq

text \<open>The two commands that read: what a returned call has done.\<close>

lemma flash_read_sr_SomeD:
  "flash_read_sr h = Some (sr, h') \<Longrightarrow>
     spi_log h' = spi_log h @ [(spi_cs_flash h, [ucast FLASH_CMD_READ_SR1, 0x100])] \<and>
     spi_cs_flash h' = spi_cs_flash h \<and> spi_flashchip h' = spi_flashchip h \<and>
     length (spi_rx h') < length (spi_rx h)"
  by (auto simp: flash_read_sr_def spi_xfer_def spi_xfer_bytes_wo Let_def
           split: option.splits dest: spi_wait_shorter)

lemma flash_verify_SomeD:
  "flash_verify dst addr h = Some (sh, h') \<Longrightarrow>
     spi_log h' = spi_log h @
       [(spi_cs_flash h,
         map ucast (flash_addr_cmd FLASH_CMD_READ_DATA addr) @ replicate (length dst) 0x100)] \<and>
     spi_cs_flash h' = spi_cs_flash h \<and> spi_flashchip h' = spi_flashchip h \<and>
     length (spi_rx h') + length dst \<le> length (spi_rx h)"
  by (auto simp: flash_verify_def spi_xfer_verify_def spi_verify_bytes_wo Let_def map_replicate_const
           split: option.splits dest!: spi_verify_bytes_rd)

lemma length_buf_bytes: "length (buf_bytes s k i n) = n"
  by (simp add: buf_bytes_def)

lemma tick_program_rx:
  "tick_program s = Some s' \<Longrightarrow>
     spi_rx (hw s') = spi_rx (hw s) \<and>
     (buf_used s' = buf_used s \<or> buf_used s' = buf_used s - 1)"
  by (auto simp: tick_program_def flash_wo_eqs Let_def split: if_splits)

lemma tick_erase_rx:
  "tick_erase s = Some s' \<Longrightarrow>
     buf_used s' = buf_used s \<and>
     (if flash_op s = FL_ERASE then length (spi_rx (hw s')) + 4096 \<le> length (spi_rx (hw s))
      else spi_rx (hw s') = spi_rx (hw s))"
  by (auto simp: tick_erase_def flash_wo_eqs Let_def length_buf_bytes
           split: if_splits option.splits dest!: flash_verify_SomeD)

lemma tick_work_measure:
  assumes "tick_work s = Some s'" and "buf_used s \<noteq> 0"
  shows "length (spi_rx (hw s')) + unat (buf_used s') \<le> length (spi_rx (hw s)) + unat (buf_used s) \<and>
     (flash_op s = FL_ERASE \<or> prog_retry s = 0 \<longrightarrow>
        length (spi_rx (hw s')) + unat (buf_used s') < length (spi_rx (hw s)) + unat (buf_used s))"
proof (cases "prog_retry s = 0")
  case True
  with assms have "s' = tick_fatal (s\<lparr>hw := flashchip_select (selected s) (hw s)\<rparr>)"
    by (simp add: tick_work_def Let_def)
  with assms(2) show ?thesis
    by (simp add: tick_fatal_def usb_dfu_cb_reboot_def flashchip_select_def unat_minus_one unat_gt_0)
next
  case False
  with assms obtain s2 where
    e: "tick_erase (s\<lparr>hw := flashchip_select (selected s) (hw s)\<rparr>) = Some s2" and
    p: "tick_program s2 = Some s'"
    by (auto simp: tick_work_def Let_def split: option.splits)
  from tick_erase_rx [OF e] have
    e1: "buf_used s2 = buf_used s" and
    e2: "length (spi_rx (hw s2)) \<le> length (spi_rx (hw s))" and
    e3: "flash_op s = FL_ERASE \<longrightarrow> length (spi_rx (hw s2)) + 4096 \<le> length (spi_rx (hw s))"
    by (auto simp: flashchip_select_def split: if_splits)
  from tick_program_rx [OF p] have
    p1: "spi_rx (hw s') = spi_rx (hw s2)" and
    p2: "buf_used s' = buf_used s2 \<or> buf_used s' = buf_used s2 - 1"
    by auto
  from p2 e1 assms(2) have "unat (buf_used s') \<le> unat (buf_used s)"
    by (auto simp: unat_minus_one)
  with e2 e3 p1 False show ?thesis by auto
qed

lemma dfu_tick_measure:
  assumes "dfu_tick s = Some s'" and "buf_used s \<noteq> 0"
  shows "length (spi_rx (hw s')) + unat (buf_used s') < length (spi_rx (hw s)) + unat (buf_used s)"
proof (cases "flash_op s = FL_IDLE")
  case True
  with assms have w: "tick_work (s\<lparr>flash_op := FL_ERASE, op_len := 4096, op_ofs := 0\<rparr>) = Some s'"
    by (simp add: dfu_tick_def)
  from tick_work_measure [OF w] assms(2) show ?thesis by simp
next
  case False
  with assms obtain sr h1 where
    r: "flash_read_sr (hw s) = Some (sr, h1)" and
    w: "sr AND 1 \<noteq> 0 \<and> s' = s\<lparr>hw := h1\<rparr> \<or> tick_work (s\<lparr>hw := h1\<rparr>) = Some s'"
    by (auto simp: dfu_tick_def split: option.splits if_splits)
  from flash_read_sr_SomeD [OF r] have lt: "length (spi_rx h1) < length (spi_rx (hw s))"
    by simp
  from w show ?thesis
  proof
    assume "sr AND 1 \<noteq> 0 \<and> s' = s\<lparr>hw := h1\<rparr>"
    with lt show ?thesis by simp
  next
    assume "tick_work (s\<lparr>hw := h1\<rparr>) = Some s'"
    from tick_work_measure [OF this] assms(2) lt show ?thesis by simp
  qed
qed

function dfu_pump :: "dfu \<Rightarrow> dfu option" where
  "dfu_pump s =
     (if buf_used s \<noteq> 0 then
        (case dfu_tick s of None \<Rightarrow> None | Some s' \<Rightarrow> dfu_pump s')
      else Some s)"
  by pat_completeness auto
termination
  by (relation "measure (\<lambda>s. length (spi_rx (hw s)) + unat (buf_used s))")
     (auto dest: dfu_tick_measure)

subsection \<open>Callbacks\<close>

text \<open>\<^verbatim>\<open>_dfu_bus_reset\<close>, \<^verbatim>\<open>_dfu_state_chg\<close>, \<^verbatim>\<open>_dfu_detach_done_cb\<close>, \<^verbatim>\<open>_dfu_dnload_done_cb\<close>.\<close>

datatype usb_dev_state = USB_DS_CONFIGURED | USB_DS_OTHER

definition dfu_bus_reset :: "dfu \<Rightarrow> dfu" where
  "dfu_bus_reset s = (if state s \<noteq> appDETACH then usb_dfu_cb_reboot s else s)"

definition dfu_state_chg :: "usb_dev_state \<Rightarrow> dfu \<Rightarrow> dfu" where
  "dfu_state_chg st s = (if st = USB_DS_CONFIGURED then s\<lparr>state := dfuIDLE\<rparr> else s)"

definition dfu_detach_done_cb :: "dfu \<Rightarrow> dfu" where
  "dfu_detach_done_cb s = usb_dfu_cb_reboot s"

definition dfu_dnload_done_cb :: "dfu \<Rightarrow> dfu" where
  "dfu_dnload_done_cb s =
     s\<lparr>buf_wr := buf_wr s XOR 1, buf_used := buf_used s + 1, state := dfuDNLOAD_SYNC\<rparr>"

subsection \<open>Control requests\<close>

text \<open>
  \<^verbatim>\<open>xfer->data[i] = v\<close>, through whichever buffer the pointer stands in: the stack's own,
  or the memory of \<^verbatim>\<open>g_dfu\<close>.
\<close>

definition xfer_store :: "nat \<Rightarrow> 8 word \<Rightarrow> usb_xfer \<times> dfu \<Rightarrow> (usb_xfer \<times> dfu) option" where
  "xfer_store i v p =
     (case p of (xfer, s) \<Rightarrow>
        (case xfer_data xfer of
           XferOwn \<Rightarrow> Some (xfer\<lparr>xfer_own := (xfer_own xfer)(i := v)\<rparr>, s)
         | DfuBuf off \<Rightarrow> map_option (Pair xfer) (dfu_store (off + int i) v s)))"

text \<open>The label \<^verbatim>\<open>error:\<close>.\<close>

definition dfu_error :: "usb_xfer \<Rightarrow> dfu \<Rightarrow> usb_fnd_resp \<times> usb_xfer \<times> dfu" where
  "dfu_error xfer s = (USB_FND_ERROR, xfer, s\<lparr>state := dfuERROR, status := errUNKNOWN\<rparr>)"

text \<open>
  \<^verbatim>\<open>case USB_RT_DFU_DNLOAD\<close>. The length is added to \<^verbatim>\<open>addr_recv\<close> before the comparison, in
  32 bits, and the rejecting branch leaves it added.
  \<^verbatim>\<open>memset(&xfer->data[xfer->len], 0xff, 4096 - xfer->len)\<close> stores \<open>4096 - len\<close> bytes from
  offset \<open>len\<close> of the slot upwards.
\<close>

definition dfu_req_dnload ::
  "usb_ctrl_req \<Rightarrow> usb_xfer \<Rightarrow> dfu \<Rightarrow> (usb_fnd_resp \<times> usb_xfer \<times> dfu) option" where
  "dfu_req_dnload req xfer s =
     (if wLength req \<noteq> 0 then
        let s1 = s\<lparr>addr_recv := addr_recv s + ucast (wLength req)\<rparr> in
        if addr_recv s1 > addr_end s1 then Some (dfu_error xfer s1)
        else
          let base = 4096 * uint (buf_wr s1);
              xfer1 = xfer\<lparr>xfer_len := ucast (wLength req),
                          xfer_data := DfuBuf base,
                          xfer_cb_done := Some Dfu_dnload_done_cb\<rparr>
          in
          if xfer_len xfer1 < 4096 then
            map_option (\<lambda>s2. (USB_FND_SUCCESS, xfer1, s2))
              (dfu_store_bytes (base + uint (xfer_len xfer1))
                 (replicate (4096 - unat (xfer_len xfer1)) 0xff) s1)
          else Some (USB_FND_SUCCESS, xfer1, s1)
      else Some (USB_FND_SUCCESS, xfer, s\<lparr>state := dfuMANIFEST_SYNC\<rparr>))"

text \<open>
  \<^verbatim>\<open>case USB_RT_DFU_UPLOAD\<close>: the flash is read into slot 0, synchronously. The length is
  clamped to the zone only, so the bytes read can be more than the array holds;
  \<^verbatim>\<open>spi_xfer\<close> stores each of them at \<^verbatim>\<open>xfer->data[i]\<close>. The address and the length of the
  read are arguments, passed before the first store; \<^verbatim>\<open>addr_read\<close> is advanced after the
  last.
\<close>

definition dfu_req_upload ::
  "usb_ctrl_req \<Rightarrow> usb_xfer \<Rightarrow> dfu \<Rightarrow> (usb_fnd_resp \<times> usb_xfer \<times> dfu) option" where
  "dfu_req_upload req xfer s =
     (let xfer1 = xfer\<lparr>xfer_len := ucast (wLength req), xfer_data := DfuBuf 0\<rparr>;
          xfer2 = (if addr_read s + xfer_len xfer1 > addr_end s
                   then xfer1\<lparr>xfer_len := addr_end s - addr_read s\<rparr> else xfer1)
      in
      if xfer_len xfer2 \<noteq> 0 then
        (case flash_read (buf_bytes s 0 0 (unat (xfer_len xfer2))) (addr_read s) (hw s) of
           None \<Rightarrow> None
         | Some (bytes, hw1) \<Rightarrow>
             (case dfu_store_bytes 0 bytes (s\<lparr>hw := hw1\<rparr>) of
                None \<Rightarrow> None
              | Some s1 \<Rightarrow>
                  Some (USB_FND_SUCCESS, xfer2,
                        s1\<lparr>addr_read := addr_read s1 + xfer_len xfer2\<rparr>)))
      else Some (USB_FND_SUCCESS, xfer2, s))"

text \<open>
  \<^verbatim>\<open>case USB_RT_DFU_GETSTATUS\<close>, with \<^verbatim>\<open>DFU_UTIL_SPEEDUP_WORDAROUND\<close> defined and
  \<^verbatim>\<open>DFU_HOST_POLL_MS\<close> = 5. The first part settles the state to report (the local
  \<^verbatim>\<open>state\<close>); it does not return while the pump loop runs. The second part stores the six
  bytes of the reply.
\<close>

definition dfu_getstatus_state :: "dfu \<Rightarrow> (dfu_state \<times> dfu) option" where
  "dfu_getstatus_state s =
     (if state s = dfuDNLOAD_SYNC then
        if buf_used s < 2 then Some (dfuDNLOAD_IDLE, s\<lparr>state := dfuDNLOAD_IDLE\<rparr>)
        else Some (dfuDNBUSY, s)
      else if state s = dfuMANIFEST_SYNC then
        map_option (\<lambda>s'. (dfuIDLE, s')) (dfu_pump (s\<lparr>state := dfuIDLE\<rparr>))
      else Some (state s, s))"

definition DFU_HOST_POLL_MS :: "32 word" where "DFU_HOST_POLL_MS = 5"

definition getstatus_store :: "dfu_state \<Rightarrow> usb_xfer \<times> dfu \<Rightarrow> (usb_xfer \<times> dfu) option" where
  "getstatus_store st p =
     Option.bind (xfer_store 0 (dfu_status_val (status (snd p))) p) (\<lambda>p0.
     Option.bind (xfer_store 1 (ucast (drop_bit 0 DFU_HOST_POLL_MS AND 0xff)) p0) (\<lambda>p1.
     Option.bind (xfer_store 2 (ucast (drop_bit 8 DFU_HOST_POLL_MS AND 0xff)) p1) (\<lambda>p2.
     Option.bind (xfer_store 3 (ucast (drop_bit 16 DFU_HOST_POLL_MS AND 0xff)) p2) (\<lambda>p3.
     Option.bind (xfer_store 4 (dfu_state_val st) p3) (\<lambda>p4.
     xfer_store 5 0 p4)))))"

definition dfu_req_getstatus :: "usb_xfer \<Rightarrow> dfu \<Rightarrow> (usb_fnd_resp \<times> usb_xfer \<times> dfu) option" where
  "dfu_req_getstatus xfer s =
     (case dfu_getstatus_state s of
        None \<Rightarrow> None
      | Some (st, s1) \<Rightarrow>
          (case getstatus_store st (xfer, s1) of
             None \<Rightarrow> None
           | Some (xfer', s') \<Rightarrow> Some (USB_FND_SUCCESS, xfer', s')))"

text \<open>The \<^verbatim>\<open>switch (req->wRequestAndType)\<close>.\<close>

definition dfu_class_req ::
  "usb_ctrl_req \<Rightarrow> usb_xfer \<Rightarrow> dfu \<Rightarrow> (usb_fnd_resp \<times> usb_xfer \<times> dfu) option" where
  "dfu_class_req req xfer s =
     (let rt = wRequestAndType req in
      if rt = USB_RT_DFU_DETACH then
        Some (USB_FND_SUCCESS, xfer\<lparr>xfer_cb_done := Some Dfu_detach_done_cb\<rparr>, s)
      else if rt = USB_RT_DFU_DNLOAD then dfu_req_dnload req xfer s
      else if rt = USB_RT_DFU_UPLOAD then dfu_req_upload req xfer s
      else if rt = USB_RT_DFU_GETSTATUS then dfu_req_getstatus xfer s
      else if rt = USB_RT_DFU_CLRSTATUS then
        Some (USB_FND_SUCCESS, xfer, s\<lparr>state := dfuIDLE, status := OK\<rparr>)
      else if rt = USB_RT_DFU_GETSTATE then
        (case xfer_store 0 (dfu_state_val (state s)) (xfer, s) of
           None \<Rightarrow> None
         | Some (xfer', s') \<Rightarrow> Some (USB_FND_SUCCESS, xfer', s'))
      else if rt = USB_RT_DFU_ABORT then
        Some (USB_FND_SUCCESS, xfer, s\<lparr>state := dfuIDLE\<rparr>)
      else Some (dfu_error xfer s))"

text \<open>
  \<^verbatim>\<open>_dfu_ctrl_req\<close>. \<^verbatim>\<open>dfu_vendor_ctrl_req\<close> is external: it is the parameter \<open>vendor\<close>. The
  handler points the transfer at \<^verbatim>\<open>data[0]\<close> with the length \<^verbatim>\<open>sizeof(g_dfu.buf)\<close>, which is
  8196, four more than the array holds. The vendor code is given the request, the
  transfer and the 8196 bytes it can read there, and answers with its disposition, the
  transfer as it leaves it, and the stores it makes through the pointer, as pairs of
  index and byte in the order it makes them. In \<^verbatim>\<open>1 << req->bRequest\<close> a count of 32 or
  more is undefined in C; the model has no result there.
\<close>

type_synonym vendor_fn =
  "usb_ctrl_req \<Rightarrow> usb_xfer \<Rightarrow> 8 word list \<Rightarrow> usb_fnd_resp \<times> usb_xfer \<times> (nat \<times> 8 word) list"

fun dfu_stores :: "(nat \<times> 8 word) list \<Rightarrow> dfu \<Rightarrow> dfu option" where
  "dfu_stores [] s = Some s"
| "dfu_stores (w # ws) s =
     (case dfu_store (int (fst w)) (snd w) s of None \<Rightarrow> None | Some s' \<Rightarrow> dfu_stores ws s')"

definition dfu_ctrl_req ::
  "vendor_fn \<Rightarrow> usb_ctrl_req \<Rightarrow> usb_xfer \<Rightarrow> dfu \<Rightarrow> (usb_fnd_resp \<times> usb_xfer \<times> dfu) option" where
  "dfu_ctrl_req vendor req xfer s =
     (if wIndex req \<noteq> ucast (intf s) then Some (USB_FND_CONTINUE, xfer, s)
      else if (USB_REQ_TYPE req OR USB_REQ_RCPT req) = (USB_REQ_TYPE_VENDOR OR USB_REQ_RCPT_INTF) then
        (case vendor req (xfer\<lparr>xfer_data := DfuBuf 0, xfer_len := 8196\<rparr>)
                (map (\<lambda>i. dfu_load s (int i)) [0..<8196]) of
           (r, xfer', ws) \<Rightarrow> map_option (\<lambda>s'. (r, xfer', s')) (dfu_stores ws s))
      else if (USB_REQ_TYPE req OR USB_REQ_RCPT req) \<noteq> (USB_REQ_TYPE_CLASS OR USB_REQ_RCPT_INTF) then
        Some (USB_FND_CONTINUE, xfer, s)
      else if 32 \<le> unat (bRequest req) then None
      else if dfu_valid_req (state s) AND push_bit (unat (bRequest req)) 1 = 0 then
        Some (dfu_error xfer s)
      else dfu_class_req req xfer s)"

subsection \<open>Interface selection and initialisation\<close>

text \<open>
  \<^verbatim>\<open>_dfu_set_intf\<close>: six reads of \<^verbatim>\<open>dfu_zones[g_dfu.alt]\<close>, in the order of the source.
\<close>

definition dfu_set_intf ::
  "usb_intf_desc \<Rightarrow> usb_intf_desc \<Rightarrow> dfu \<Rightarrow> (usb_fnd_resp \<times> dfu) option" where
  "dfu_set_intf base sel s =
     (if bInterfaceClass sel \<noteq> 0xfe \<or> bInterfaceSubClass sel \<noteq> 0x01 \<or>
         bInterfaceProtocol sel \<noteq> 0x02
      then Some (USB_FND_CONTINUE, s)
      else
        let s0 = s\<lparr>state := dfuIDLE, intf := bInterfaceNumber sel, alt := bAlternateSetting sel\<rparr> in
        Option.bind (zone_at (alt s0)) (\<lambda>z1. let s1 = s0\<lparr>addr_recv := zone_start z1\<rparr> in
        Option.bind (zone_at (alt s1)) (\<lambda>z2. let s2 = s1\<lparr>addr_read := zone_start z2\<rparr> in
        Option.bind (zone_at (alt s2)) (\<lambda>z3. let s3 = s2\<lparr>addr_prog := zone_start z3\<rparr> in
        Option.bind (zone_at (alt s3)) (\<lambda>z4. let s4 = s3\<lparr>addr_erase := zone_start z4\<rparr> in
        Option.bind (zone_at (alt s4)) (\<lambda>z5. let s5 = s4\<lparr>addr_end := zone_end z5\<rparr> in
        Option.bind (zone_at (alt s5)) (\<lambda>z6. let s6 = s5\<lparr>selected := flashsel z6\<rparr> in
        Some (USB_FND_SUCCESS, s6))))))))"

definition dfu_get_intf :: "usb_intf_desc \<Rightarrow> dfu \<Rightarrow> usb_fnd_resp \<times> 8 word option" where
  "dfu_get_intf base s =
     (if bInterfaceClass base \<noteq> 0xfe \<or> bInterfaceSubClass base \<noteq> 0x01 \<or>
         bInterfaceProtocol base \<noteq> 0x02
      then (USB_FND_CONTINUE, None)
      else (USB_FND_SUCCESS, Some (alt s)))"

text \<open>
  \<^verbatim>\<open>usb_dfu_init\<close>: \<^verbatim>\<open>memset(&g_dfu, 0x00, sizeof(g_dfu))\<close>, then \<^verbatim>\<open>state = appDETACH\<close>. The
  statics outside \<^verbatim>\<open>g_dfu\<close>, the memory around it, the controller, the count and the log
  are left as they are.
\<close>

definition usb_dfu_init :: "dfu \<Rightarrow> dfu" where
  "usb_dfu_init s =
     s\<lparr>state := appDETACH, status := OK, intf := 0, alt := 0, tick := 0,
       buf_used := 0, buf_wr := 0, buf_rd := 0,
       buf_data := (\<lambda>a. if 0 \<le> a \<and> a < 8192 then 0 else buf_data s a),
       addr_recv := 0, addr_read := 0, addr_prog := 0, addr_erase := 0, addr_end := 0,
       selected := 0, op_ofs := 0, op_len := 0, flash_op := FL_IDLE\<rparr>"

text \<open>
  The program state right after \<^verbatim>\<open>usb_dfu_init\<close> at start-up, over a controller \<open>h\<close>: the
  statics have their initialisers, \<^verbatim>\<open>prog_retry = PROG_RETRY\<close> (4) and \<^verbatim>\<open>should = 0\<close>.
\<close>

definition dfu_boot :: "spi \<Rightarrow> dfu" where
  "dfu_boot h =
     usb_dfu_init
       \<lparr>state = appIDLE, status = OK, intf = 0, alt = 0, tick = 0,
        buf_used = 0, buf_wr = 0, buf_rd = 0, buf_data = (\<lambda>a. 0),
        addr_recv = 0, addr_read = 0, addr_prog = 0, addr_erase = 0, addr_end = 0,
        selected = 0, op_ofs = 0, op_len = 0, flash_op = FL_IDLE,
        prog_retry = PROG_RETRY, should = 0, hw = h, reboots = 0, overruns = []\<rparr>"

subsection \<open>Runs\<close>

text \<open>
  Modelled from the spec: the data phase of a download. The USB stack is not part of the
  sources at hand; the spec has the handler point the transfer's data buffer at the slot
  and set the callback for the end of the data phase. The stack stores the bytes it
  receives from the host, \<^verbatim>\<open>xfer->len\<close> of them at most, through \<^verbatim>\<open>xfer->data\<close>, and runs the
  callback afterwards.
\<close>

definition usb_data_out :: "usb_xfer \<Rightarrow> 8 word list \<Rightarrow> dfu \<Rightarrow> dfu option" where
  "usb_data_out xfer vs s =
     (case xfer_data xfer of
        XferOwn \<Rightarrow> Some s
      | DfuBuf off \<Rightarrow> dfu_store_bytes off (take (unat (xfer_len xfer)) vs) s)"

text \<open>
  What the function driver can be called with: the callbacks it registers, the two
  done-callbacks it hands to the stack, and the writer tick of the main loop; and the
  data phase, which the stack runs between a download request and its callback. A step
  yields the dispositions of the control requests it served; a run applies a sequence
  of events and has no result when a step has none.
\<close>

datatype dfu_event =
  Ev_bus_reset
  | Ev_state_chg usb_dev_state
  | Ev_ctrl_req usb_ctrl_req usb_xfer
  | Ev_data_out usb_xfer "8 word list"
  | Ev_set_intf usb_intf_desc usb_intf_desc
  | Ev_get_intf usb_intf_desc
  | Ev_detach_done
  | Ev_dnload_done
  | Ev_tick

fun dfu_step :: "vendor_fn \<Rightarrow> dfu_event \<Rightarrow> dfu \<Rightarrow> (usb_fnd_resp list \<times> dfu) option" where
  "dfu_step vendor Ev_bus_reset s = Some ([], dfu_bus_reset s)"
| "dfu_step vendor (Ev_state_chg st) s = Some ([], dfu_state_chg st s)"
| "dfu_step vendor (Ev_ctrl_req req xfer) s =
     (case dfu_ctrl_req vendor req xfer s of
        None \<Rightarrow> None
      | Some (r, xfer', s') \<Rightarrow> Some ([r], s'))"
| "dfu_step vendor (Ev_data_out xfer vs) s =
     (case usb_data_out xfer vs s of None \<Rightarrow> None | Some s' \<Rightarrow> Some ([], s'))"
| "dfu_step vendor (Ev_set_intf base sel) s =
     (case dfu_set_intf base sel s of None \<Rightarrow> None | Some (r, s') \<Rightarrow> Some ([], s'))"
| "dfu_step vendor (Ev_get_intf base) s = Some ([], s)"
| "dfu_step vendor Ev_detach_done s = Some ([], dfu_detach_done_cb s)"
| "dfu_step vendor Ev_dnload_done s = Some ([], dfu_dnload_done_cb s)"
| "dfu_step vendor Ev_tick s = (case dfu_tick s of None \<Rightarrow> None | Some s' \<Rightarrow> Some ([], s'))"

fun dfu_run :: "vendor_fn \<Rightarrow> dfu_event list \<Rightarrow> dfu \<Rightarrow> (usb_fnd_resp list \<times> dfu) option" where
  "dfu_run vendor [] s = Some ([], s)"
| "dfu_run vendor (ev # evs) s =
     (case dfu_step vendor ev s of
        None \<Rightarrow> None
      | Some (rs, s') \<Rightarrow>
          (case dfu_run vendor evs s' of
             None \<Rightarrow> None
           | Some (rs', s'') \<Rightarrow> Some (rs @ rs', s'')))"

section \<open>The verify classification\<close>

text \<open>
  The expected bytes of a verify transfer are the buffers of its read chunks, in order.
\<close>

definition expected_bytes :: "spi_xfer_chunk list \<Rightarrow> 8 word list" where
  "expected_bytes xfer = concat (map data (filter do_read xfer))"

definition all_ff :: "8 word list \<Rightarrow> bool" where
  "all_ff bs = list_all (\<lambda>b. b = 0xFF) bs"

text \<open>
  What the three accumulators hold once the expected bytes \<open>seen\<close> have gone by:
  \<^verbatim>\<open>should_ew\<close> is 0 before the first byte, then 1 while every byte was 0xFF, then 3.
\<close>

definition acc_ok :: "8 word list \<Rightarrow> verify_acc \<Rightarrow> bool" where
  "acc_ok seen acc =
     (case acc of (should_e, should_ew, should_w) \<Rightarrow>
        (should_e = 0 \<or> should_e = 1) \<and> (should_w = 0 \<or> should_w = 2) \<and>
        should_ew = (if seen = [] then 0 else if all_ff seen then 1 else 3) \<and>
        (seen = [] \<longrightarrow> should_e = 0))"

lemma acc_ok_step: "acc_ok seen acc \<Longrightarrow> acc_ok (seen @ [b]) (verify_step b d acc)"
  by (cases acc) (auto simp: acc_ok_def verify_step_def all_ff_def)

lemma acc_ok_bytes:
  "acc_ok seen acc \<Longrightarrow> spi_verify_bytes r w bs acc rx = Some (acc', tx, rx') \<Longrightarrow>
     acc_ok (seen @ (if r then bs else [])) acc'"
proof (induction bs arbitrary: seen acc rx tx)
  case Nil
  then show ?case by simp
next
  case (Cons b bs)
  show ?case
  proof (cases r)
    case False
    with Cons.prems show ?thesis by (simp add: spi_verify_bytes_wo)
  next
    case True
    with Cons.prems obtain d rx1 tx1 where
      r: "spi_verify_bytes r w bs (verify_step b d acc) rx1 = Some (acc', tx1, rx')"
      by (auto simp: Let_def split: option.splits)
    from Cons.IH [OF acc_ok_step [OF Cons.prems(1)] r] True show ?thesis by simp
  qed
qed

lemma acc_ok_chunks:
  "acc_ok seen acc \<Longrightarrow> spi_verify_chunks cs acc rx = Some (acc', tx, rx') \<Longrightarrow>
     acc_ok (seen @ expected_bytes cs) acc'"
proof (induction cs arbitrary: seen acc rx tx)
  case Nil
  then show ?case by (simp add: expected_bytes_def)
next
  case (Cons c cs)
  from Cons.prems(2) obtain acc1 tx1 rx1 tx2 where
    b: "spi_verify_bytes (do_read c) (do_write c) (data c) acc rx = Some (acc1, tx1, rx1)" and
    r: "spi_verify_chunks cs acc1 rx1 = Some (acc', tx2, rx')"
    by (auto split: option.splits)
  from Cons.IH [OF acc_ok_bytes [OF Cons.prems(1) b] r] show ?case
    by (cases "do_read c") (simp_all add: expected_bytes_def)
qed

lemma verify_result_cases:
  "acc_ok seen acc \<Longrightarrow>
     (verify_result acc = 0 \<or> verify_result acc = 1 \<or> verify_result acc = 2 \<or> verify_result acc = 3) \<and>
     (verify_result acc = 1 \<longrightarrow> all_ff seen) \<and> (verify_result acc = 3 \<longrightarrow> \<not> all_ff seen)"
  by (cases acc) (auto simp: acc_ok_def verify_result_def split: if_splits)

lemma code_bits:
  fixes r :: "8 word"
  assumes "r = 0 \<or> r = 1 \<or> r = 2 \<or> r = 3" and "r = 1 \<longrightarrow> a" and "r = 3 \<longrightarrow> \<not> a"
  shows "r AND 1 \<noteq> 0 \<longrightarrow> (r AND 2 \<noteq> 0) = (\<not> a)"
  using assms by auto

text \<open>
  C2, as the code has it. For every chip select, chunk list and controller, a verify
  transfer that returns gives one of the codes 0, 1, 2, 3. The code 1 (erase only) is
  returned, and only when every expected byte of the read chunks is 0xFF: nothing is
  left to write once the sector is erased. The code 3 is returned only when some
  expected byte differs from 0xFF. So, when the erase-needed bit is set in the result,
  the write-needed bit is set too exactly when some expected byte is not 0xFF.
\<close>

theorem spi_xfer_verify_codes:
  assumes "spi_xfer_verify cs xfer h = Some (r, h')"
  shows "(r = 0 \<or> r = 1 \<or> r = 2 \<or> r = 3) \<and>
         (r = 1 \<longrightarrow> all_ff (expected_bytes xfer)) \<and>
         (r = 3 \<longrightarrow> \<not> all_ff (expected_bytes xfer)) \<and>
         (r AND 1 \<noteq> 0 \<longrightarrow> (r AND 2 \<noteq> 0) = (\<not> all_ff (expected_bytes xfer)))"
proof -
  from assms obtain acc tx rx' where
    c: "spi_verify_chunks xfer (0, 0, 0) (spi_rx h) = Some (acc, tx, rx')" and
    r: "r = verify_result acc"
    by (auto simp: spi_xfer_verify_def Let_def split: option.splits)
  have "acc_ok [] (0, 0, 0)" by (simp add: acc_ok_def)
  from acc_ok_chunks [OF this c] have "acc_ok (expected_bytes xfer) acc" by simp
  from verify_result_cases [OF this] r have
    k: "r = 0 \<or> r = 1 \<or> r = 2 \<or> r = 3" "r = 1 \<longrightarrow> all_ff (expected_bytes xfer)"
       "r = 3 \<longrightarrow> \<not> all_ff (expected_bytes xfer)"
    by simp_all
  from k code_bits [OF k] show ?thesis by blast
qed

text \<open>
  A verify of the two expected bytes 0xFF 0xFF after a one-byte command, against a device
  that is first not ready and then answers 0xFF and 0x7F. The second byte needs an erase;
  the transfer returns 1.
\<close>

definition verify_chunks_ff :: "spi_xfer_chunk list" where
  "verify_chunks_ff =
     [\<lparr>data = [0x03], do_read = False, do_write = True\<rparr>,
      \<lparr>data = [0xFF, 0xFF], do_read = True, do_write = False\<rparr>]"

definition verify_hw_7f :: spi where
  "verify_hw_7f =
     \<lparr>spi_csr = 0xff02c0, spi_rx = [0x80000000, 0xFF, 0x7F], spi_log = [],
      spi_cs_flash = 0, spi_flashchip = 0\<rparr>"

theorem spi_xfer_verify_returns_1:
  "map_option fst (spi_xfer_verify 0 verify_chunks_ff verify_hw_7f) = Some 1"
  by (simp add: spi_xfer_verify_def verify_chunks_ff_def verify_hw_7f_def verify_step_def
        verify_result_def)

theorem spi_xfer_verify_codes_witness:
  "map_option fst (spi_xfer_verify 0 verify_chunks_ff verify_hw_7f) = Some 1 \<and>
   all_ff (expected_bytes verify_chunks_ff)"
proof -
  have "spi_xfer_verify 0 verify_chunks_ff verify_hw_7f \<noteq> None"
    by (simp add: spi_xfer_verify_def verify_chunks_ff_def verify_hw_7f_def)
  then obtain r h' where e: "spi_xfer_verify 0 verify_chunks_ff verify_hw_7f = Some (r, h')"
    by auto
  have "r = 1"
    using e
    by (simp add: spi_xfer_verify_def verify_chunks_ff_def verify_hw_7f_def verify_step_def
          verify_result_def)
  with spi_xfer_verify_codes [OF e] e show ?thesis by simp
qed

section \<open>SPI operations of one tick\<close>

text \<open>
  A transfer of the log is told by the first word it wrote, the command byte. The two
  commands that change the flash array are sector erase and page program.
\<close>

definition xfer_opcode :: "nat \<times> 32 word list \<Rightarrow> 32 word option" where
  "xfer_opcode e = (case snd e of [] \<Rightarrow> None | w # ws \<Rightarrow> Some w)"

definition is_erase_or_program :: "nat \<times> 32 word list \<Rightarrow> bool" where
  "is_erase_or_program e =
     (xfer_opcode e = Some (ucast FLASH_CMD_SECTOR_ERASE) \<or>
      xfer_opcode e = Some (ucast FLASH_CMD_PAGE_PROGRAM))"

lemmas flash_cmd_defs =
  FLASH_CMD_WRITE_ENABLE_def FLASH_CMD_READ_SR1_def FLASH_CMD_READ_DATA_def
  FLASH_CMD_PAGE_PROGRAM_def FLASH_CMD_SECTOR_ERASE_def

lemma tick_program_log:
  "tick_program s = Some s' \<Longrightarrow>
     (\<exists>new. spi_log (hw s') = spi_log (hw s) @ new \<and>
        (new = [] \<or> length new = 2 \<and> length (filter is_erase_or_program new) = 1 \<and>
           flash_op s = FL_PROGRAM))"
  by (auto simp: tick_program_def flash_wo_eqs Let_def is_erase_or_program_def xfer_opcode_def
        flash_addr_cmd_def flash_cmd_defs split: if_splits)

lemma tick_erase_log:
  "tick_erase s = Some s' \<Longrightarrow>
     (\<exists>new. spi_log (hw s') = spi_log (hw s) @ new \<and>
        (length new \<le> 1 \<and> filter is_erase_or_program new = [] \<or>
         length new = 3 \<and> length (filter is_erase_or_program new) = 1 \<and> flash_op s' = FL_ERASE))"
  by (auto simp: tick_erase_def flash_wo_eqs Let_def is_erase_or_program_def xfer_opcode_def
        flash_addr_cmd_def flash_cmd_defs flashchip_select_def
        split: if_splits option.splits dest!: flash_verify_SomeD)

lemma tick_work_log:
  assumes "tick_work s = Some s'"
  shows "\<exists>new. spi_log (hw s') = spi_log (hw s) @ new \<and> length new \<le> 3 \<and>
           length (filter is_erase_or_program new) \<le> 1"
proof (cases "prog_retry s = 0")
  case True
  with assms have "spi_log (hw s') = spi_log (hw s) @ []"
    by (auto simp: tick_work_def Let_def tick_fatal_def usb_dfu_cb_reboot_def flashchip_select_def)
  then show ?thesis by (intro exI [of _ "[]"]) simp
next
  case False
  with assms obtain s2 where
    e: "tick_erase (s\<lparr>hw := flashchip_select (selected s) (hw s)\<rparr>) = Some s2" and
    p: "tick_program s2 = Some s'"
    by (auto simp: tick_work_def Let_def split: option.splits)
  from tick_erase_log [OF e] obtain n1 where
    n1: "spi_log (hw s2) = spi_log (hw s) @ n1" and
    c1: "length n1 \<le> 1 \<and> filter is_erase_or_program n1 = [] \<or>
         length n1 = 3 \<and> length (filter is_erase_or_program n1) = 1 \<and> flash_op s2 = FL_ERASE"
    by (auto simp: flashchip_select_def)
  from tick_program_log [OF p] obtain n2 where
    n2: "spi_log (hw s') = spi_log (hw s2) @ n2" and
    c2: "n2 = [] \<or> length n2 = 2 \<and> length (filter is_erase_or_program n2) = 1 \<and>
           flash_op s2 = FL_PROGRAM"
    by auto
  from n1 n2 have "spi_log (hw s') = spi_log (hw s) @ (n1 @ n2)" by simp
  moreover from c1 c2 have "length (n1 @ n2) \<le> 3 \<and> length (filter is_erase_or_program (n1 @ n2)) \<le> 1"
    by auto
  ultimately show ?thesis by blast
qed

text \<open>
  C1, as the code has it. A tick that returns has added at most four transfers to the
  bus (the status read, the verify read, write-enable, and one sector erase or page
  program), and at most one of them is an erase or a program command.
\<close>

theorem tick_spi_ops_bound:
  assumes "dfu_tick s = Some s'"
  shows "\<exists>new. spi_log (hw s') = spi_log (hw s) @ new \<and> length new \<le> 4 \<and>
           length (filter is_erase_or_program new) \<le> 1"
proof (cases "flash_op s = FL_IDLE")
  case True
  show ?thesis
  proof (cases "buf_used s = 0")
    case True
    with \<open>flash_op s = FL_IDLE\<close> assms show ?thesis by (simp add: dfu_tick_def)
  next
    case False
    with \<open>flash_op s = FL_IDLE\<close> assms
    have "tick_work (s\<lparr>flash_op := FL_ERASE, op_len := 4096, op_ofs := 0\<rparr>) = Some s'"
      by (simp add: dfu_tick_def)
    from tick_work_log [OF this] show ?thesis by fastforce
  qed
next
  case False
  with assms obtain sr h1 where
    r: "flash_read_sr (hw s) = Some (sr, h1)" and
    w: "sr AND 1 \<noteq> 0 \<and> s' = s\<lparr>hw := h1\<rparr> \<or> tick_work (s\<lparr>hw := h1\<rparr>) = Some s'"
    by (auto simp: dfu_tick_def split: option.splits if_splits)
  from flash_read_sr_SomeD [OF r] have
    l1: "spi_log h1 = spi_log (hw s) @ [(spi_cs_flash (hw s), [ucast FLASH_CMD_READ_SR1, 0x100])]"
    by simp
  have nm: "\<not> is_erase_or_program (spi_cs_flash (hw s), [ucast FLASH_CMD_READ_SR1, 0x100])"
    by (simp add: is_erase_or_program_def xfer_opcode_def flash_cmd_defs)
  from w show ?thesis
  proof
    assume "sr AND 1 \<noteq> 0 \<and> s' = s\<lparr>hw := h1\<rparr>"
    with l1 nm show ?thesis by simp
  next
    assume "tick_work (s\<lparr>hw := h1\<rparr>) = Some s'"
    from tick_work_log [OF this] obtain n where
      "spi_log (hw s') = spi_log h1 @ n" "length n \<le> 3" "length (filter is_erase_or_program n) \<le> 1"
      by auto
    with l1 nm show ?thesis by simp
  qed
qed

text \<open>
  A tick in the middle of a programming pass: the second page of the buffer in slot 0 is
  due, the flash answers the status read with 0 (not busy). The tick issues three
  transfers: read status (0x05), write enable (0x06), page program (0x02).
\<close>

definition hw_idle :: "32 word list \<Rightarrow> spi" where
  "hw_idle rx =
     \<lparr>spi_csr = 0xff02c0, spi_rx = rx, spi_log = [], spi_cs_flash = 0, spi_flashchip = 0\<rparr>"

definition st_programming :: dfu where
  "st_programming =
     \<lparr>state = dfuDNLOAD_SYNC, status = OK, intf = 0, alt = 0, tick = 0,
      buf_used = 1, buf_wr = 1, buf_rd = 0, buf_data = (\<lambda>a. 0),
      addr_recv = 0x00201000, addr_read = 0x00200000, addr_prog = 0x00200000,
      addr_erase = 0x00201000, addr_end = 0x01000000,
      selected = 0, op_ofs = 256, op_len = 4096, flash_op = FL_PROGRAM,
      prog_retry = 4, should = 2, hw = hw_idle [0], reboots = 0, overruns = []\<rparr>"

definition tick_opcodes :: "dfu \<Rightarrow> 32 word option list" where
  "tick_opcodes s = map xfer_opcode (spi_log (hw s))"

theorem tick_three_spi_ops:
  "map_option tick_opcodes (dfu_tick st_programming) = Some [Some 0x05, Some 0x06, Some 0x02]"
  by (simp add: tick_opcodes_def dfu_tick_def st_programming_def hw_idle_def tick_work_def tick_erase_def
        tick_program_def flash_wo_eqs flashchip_select_def Let_def xfer_opcode_def
        flash_read_sr_def spi_xfer_def flash_addr_cmd_def flash_cmd_defs PROG_RETRY_def)

theorem tick_spi_ops_bound_witness:
  "\<exists>s'. dfu_tick st_programming = Some s' \<and>
     (\<exists>new. spi_log (hw s') = spi_log (hw st_programming) @ new \<and> length new \<le> 4 \<and>
           length (filter is_erase_or_program new) \<le> 1)"
proof -
  have "dfu_tick st_programming \<noteq> None"
    by (simp add: dfu_tick_def st_programming_def hw_idle_def tick_work_def tick_erase_def
          tick_program_def flash_wo_eqs flashchip_select_def Let_def
          flash_read_sr_def spi_xfer_def flash_cmd_defs PROG_RETRY_def)
  then obtain s' where s': "dfu_tick st_programming = Some s'" by auto
  from tick_spi_ops_bound [OF s'] s' show ?thesis by blast
qed

section \<open>Retry exhaustion\<close>

text \<open>
  A tick gets past the busy check when the writer was idle on entry (the status register
  is then not read), or when the status read returns with bit 0 clear.
\<close>

definition tick_ready :: "dfu \<Rightarrow> bool" where
  "tick_ready s =
     (flash_op s = FL_IDLE \<or>
      (case flash_read_sr (hw s) of None \<Rightarrow> False | Some (sr, h) \<Rightarrow> sr AND 1 = 0))"

text \<open>The states the fatal branch leaves behind.\<close>

lemma tick_work_fatal:
  "prog_retry s = 0 \<Longrightarrow>
     tick_work s = Some (tick_fatal (s\<lparr>hw := flashchip_select (selected s) (hw s)\<rparr>))"
  by (simp add: tick_work_def Let_def)

lemma tick_fatal_step:
  assumes "buf_used s \<noteq> 0" and "prog_retry s = 0" and "tick_ready s"
  shows "\<exists>s'. dfu_tick s = Some s' \<and> flash_op s' = FL_IDLE \<and> buf_rd s' = buf_rd s XOR 1 \<and>
           buf_used s' = buf_used s - 1 \<and> buf_wr s' = buf_wr s \<and>
           reboots s' = reboots s + 1 \<and> addr_prog s' = addr_prog s \<and>
           prog_retry s' = 0 \<and>
           (\<exists>new. spi_log (hw s') = spi_log (hw s) @ new \<and> length new \<le> 1 \<and>
                  filter is_erase_or_program new = []) \<and>
           (flash_op s = FL_IDLE \<longrightarrow> spi_log (hw s') = spi_log (hw s))"
proof (cases "flash_op s = FL_IDLE")
  case True
  with assms show ?thesis
    by (simp add: dfu_tick_def tick_work_fatal tick_fatal_def usb_dfu_cb_reboot_def
          flashchip_select_def)
next
  case False
  with assms(3) obtain sr h1 where
    r: "flash_read_sr (hw s) = Some (sr, h1)" and rdy: "sr AND 1 = 0"
    by (auto simp: tick_ready_def split: option.splits)
  from flash_read_sr_SomeD [OF r] have
    l1: "spi_log h1 = spi_log (hw s) @ [(spi_cs_flash (hw s), [ucast FLASH_CMD_READ_SR1, 0x100])]"
    by simp
  have nm: "\<not> is_erase_or_program (spi_cs_flash (hw s), [ucast FLASH_CMD_READ_SR1, 0x100])"
    by (simp add: is_erase_or_program_def xfer_opcode_def flash_cmd_defs)
  from False r rdy assms(2) have
    "dfu_tick s = Some (tick_fatal (s\<lparr>hw := flashchip_select (selected s) h1\<rparr>))"
    by (simp add: dfu_tick_def tick_work_fatal)
  with l1 nm False assms(2) show ?thesis
    by (simp add: tick_fatal_def usb_dfu_cb_reboot_def flashchip_select_def)
qed

text \<open>
  C8, as the code has it. For every writer tick entered with a pending buffer and the
  retry counter equal to 0 that gets past the busy check: the tick returns, the writer
  is idle, the read slot is released (\<open>rd\<close> flipped, \<open>used\<close> decremented), the reboot hook
  has been called once, \<open>addr_prog\<close> is unchanged, and the tick has issued at most the
  status read, no erase and no program command. A tick that finds the flash busy returns
  before any of this.
\<close>

theorem tick_retry_exhausted:
  assumes "buf_used s \<noteq> 0" and "prog_retry s = 0" and "tick_ready s"
  shows "\<exists>s'. dfu_tick s = Some s' \<and> flash_op s' = FL_IDLE \<and> buf_rd s' = buf_rd s XOR 1 \<and>
           buf_used s' = buf_used s - 1 \<and> reboots s' = reboots s + 1 \<and>
           addr_prog s' = addr_prog s \<and>
           (\<exists>new. spi_log (hw s') = spi_log (hw s) @ new \<and> length new \<le> 1 \<and>
                  filter is_erase_or_program new = [])"
  using tick_fatal_step [OF assms] by blast

text \<open>
  The writer after its fourth erase of the sector at 0x200000: still in the erase step,
  no retry left, one buffer pending. The flash answers the status read with 0x01, busy.
  The tick returns with the buffer still held and the hook not called.
\<close>

definition st_erase_exhausted :: dfu where
  "st_erase_exhausted =
     \<lparr>state = dfuDNLOAD_SYNC, status = OK, intf = 0, alt = 0, tick = 0,
      buf_used = 1, buf_wr = 1, buf_rd = 0, buf_data = (\<lambda>a. 0),
      addr_recv = 0x00201000, addr_read = 0x00200000, addr_prog = 0x00200000,
      addr_erase = 0x00201000, addr_end = 0x01000000,
      selected = 0, op_ofs = 0, op_len = 4096, flash_op = FL_ERASE,
      prog_retry = 0, should = 3, hw = hw_idle [0x01], reboots = 0, overruns = []\<rparr>"

definition writer_view :: "dfu \<Rightarrow> flash_op \<times> 8 word \<times> 8 word \<times> nat" where
  "writer_view s = (flash_op s, buf_used s, buf_rd s, reboots s)"

theorem tick_retry_exhausted_busy:
  "buf_used st_erase_exhausted = 1 \<and> prog_retry st_erase_exhausted = 0 \<and>
   map_option writer_view (dfu_tick st_erase_exhausted) = Some (FL_ERASE, 1, 0, 0)"
  by (simp add: writer_view_def dfu_tick_def st_erase_exhausted_def hw_idle_def flash_read_sr_def spi_xfer_def)

theorem tick_retry_exhausted_witness:
  "buf_used (st_erase_exhausted\<lparr>hw := hw_idle [0x00]\<rparr>) \<noteq> 0 \<and>
   tick_ready (st_erase_exhausted\<lparr>hw := hw_idle [0x00]\<rparr>) \<and>
   (\<exists>s'. dfu_tick (st_erase_exhausted\<lparr>hw := hw_idle [0x00]\<rparr>) = Some s' \<and> flash_op s' = FL_IDLE \<and>
      buf_rd s' = 1 \<and> buf_used s' = 0 \<and> reboots s' = 1 \<and> addr_prog s' = 0x00200000)"
proof -
  let ?s = "st_erase_exhausted\<lparr>hw := hw_idle [0x00]\<rparr>"
  have a: "buf_used ?s \<noteq> 0" and b: "prog_retry ?s = 0"
    by (simp_all add: st_erase_exhausted_def)
  have c: "tick_ready ?s"
    by (simp add: tick_ready_def st_erase_exhausted_def hw_idle_def flash_read_sr_def spi_xfer_def)
  from tick_retry_exhausted [OF a b c] a c show ?thesis
    by (auto simp: st_erase_exhausted_def)
qed


section \<open>Runs of the buffer pipeline\<close>

text \<open>
  The two sides of the double buffer: the commit callback of a download and the writer
  tick. A run applies a sequence of them; it has no result when a tick does not return.
\<close>

datatype writer_ev = Commit | Tick

fun writer_run :: "writer_ev list \<Rightarrow> dfu \<Rightarrow> dfu option" where
  "writer_run [] s = Some s"
| "writer_run (Commit # es) s = writer_run es (dfu_dnload_done_cb s)"
| "writer_run (Tick # es) s =
     (case dfu_tick s of None \<Rightarrow> None | Some s' \<Rightarrow> writer_run es s')"

lemma tick_exhausted_idle:
  assumes "prog_retry s = 0" and "flash_op s = FL_IDLE"
  shows "\<exists>s'. dfu_tick s = Some s' \<and> prog_retry s' = 0 \<and> flash_op s' = FL_IDLE \<and>
           spi_log (hw s') = spi_log (hw s) \<and> addr_prog s' = addr_prog s \<and>
           (buf_used s \<noteq> 0 \<longrightarrow> buf_used s' = buf_used s - 1 \<and> buf_rd s' = buf_rd s XOR 1)"
proof (cases "buf_used s = 0")
  case True
  with assms show ?thesis by (simp add: dfu_tick_def)
next
  case False
  from assms(2) have "tick_ready s" by (simp add: tick_ready_def)
  from tick_fatal_step [OF False assms(1) this] assms(2) show ?thesis by auto
qed

lemma writer_run_exhausted:
  "prog_retry s = 0 \<Longrightarrow> flash_op s = FL_IDLE \<Longrightarrow>
     \<exists>s'. writer_run es s = Some s' \<and> prog_retry s' = 0 \<and> flash_op s' = FL_IDLE \<and>
          spi_log (hw s') = spi_log (hw s) \<and> addr_prog s' = addr_prog s"
proof (induction es arbitrary: s)
  case Nil
  then show ?case by simp
next
  case (Cons e es)
  show ?case
  proof (cases e)
    case Commit
    have "prog_retry (dfu_dnload_done_cb s) = 0" "flash_op (dfu_dnload_done_cb s) = FL_IDLE"
      using Cons.prems by (simp_all add: dfu_dnload_done_cb_def)
    from Cons.IH [OF this] Commit show ?thesis by (simp add: dfu_dnload_done_cb_def)
  next
    case Tick
    from tick_exhausted_idle [OF Cons.prems] obtain s1 where
      t: "dfu_tick s = Some s1" and p: "prog_retry s1 = 0" "flash_op s1 = FL_IDLE" and
      k: "spi_log (hw s1) = spi_log (hw s)" "addr_prog s1 = addr_prog s"
      by blast
    from Cons.IH [OF p] t k Tick show ?thesis by simp
  qed
qed

text \<open>
  C9. When the fatal branch runs (a tick with a pending buffer, the retry counter 0,
  past the busy check), the counter is still 0 afterwards. From then on, whatever
  sequence of commits and ticks follows, the run returns, the counter is still 0, no
  transfer at all has gone to the flash, \<open>addr_prog\<close> has not moved, and the next tick
  returns without a transfer and, if a buffer is pending, releases it and leaves the
  writer idle. The hook is the weak default throughout: it returns and execution goes
  on.
\<close>

theorem retry_stays_exhausted:
  assumes "buf_used s0 \<noteq> 0" and "prog_retry s0 = 0" and "tick_ready s0"
  shows "\<exists>s1. dfu_tick s0 = Some s1 \<and> prog_retry s1 = 0 \<and>
           (\<forall>es. \<exists>s2. writer_run es s1 = Some s2 \<and> prog_retry s2 = 0 \<and>
               spi_log (hw s2) = spi_log (hw s1) \<and> addr_prog s2 = addr_prog s1 \<and>
               (\<exists>s3. dfu_tick s2 = Some s3 \<and> spi_log (hw s3) = spi_log (hw s2) \<and>
                   (buf_used s2 \<noteq> 0 \<longrightarrow>
                      buf_used s3 = buf_used s2 - 1 \<and> buf_rd s3 = buf_rd s2 XOR 1 \<and>
                      flash_op s3 = FL_IDLE)))"
proof -
  from tick_fatal_step [OF assms] obtain s1 where
    t: "dfu_tick s0 = Some s1" and p: "prog_retry s1 = 0" "flash_op s1 = FL_IDLE"
    by blast
  have "\<exists>s2. writer_run es s1 = Some s2 \<and> prog_retry s2 = 0 \<and>
               spi_log (hw s2) = spi_log (hw s1) \<and> addr_prog s2 = addr_prog s1 \<and>
               (\<exists>s3. dfu_tick s2 = Some s3 \<and> spi_log (hw s3) = spi_log (hw s2) \<and>
                   (buf_used s2 \<noteq> 0 \<longrightarrow>
                      buf_used s3 = buf_used s2 - 1 \<and> buf_rd s3 = buf_rd s2 XOR 1 \<and>
                      flash_op s3 = FL_IDLE))" for es
  proof -
    from writer_run_exhausted [OF p] obtain s2 where
      r: "writer_run es s1 = Some s2" and q: "prog_retry s2 = 0" "flash_op s2 = FL_IDLE" and
      k: "spi_log (hw s2) = spi_log (hw s1)" "addr_prog s2 = addr_prog s1"
      by blast
    from tick_exhausted_idle [OF q] r q k show ?thesis by blast
  qed
  with t p show ?thesis by blast
qed

theorem retry_stays_exhausted_witness:
  "buf_used (st_erase_exhausted\<lparr>hw := hw_idle [0x00]\<rparr>) \<noteq> 0 \<and>
   prog_retry (st_erase_exhausted\<lparr>hw := hw_idle [0x00]\<rparr>) = 0 \<and>
   tick_ready (st_erase_exhausted\<lparr>hw := hw_idle [0x00]\<rparr>) \<and>
   (\<exists>s1. dfu_tick (st_erase_exhausted\<lparr>hw := hw_idle [0x00]\<rparr>) = Some s1 \<and> prog_retry s1 = 0 \<and>
      (\<exists>s2. writer_run [Commit, Tick, Commit] s1 = Some s2 \<and> prog_retry s2 = 0 \<and>
          spi_log (hw s2) = spi_log (hw s1)))"
proof -
  let ?s = "st_erase_exhausted\<lparr>hw := hw_idle [0x00]\<rparr>"
  have a: "buf_used ?s \<noteq> 0" and b: "prog_retry ?s = 0"
    by (simp_all add: st_erase_exhausted_def)
  have c: "tick_ready ?s"
    by (simp add: tick_ready_def st_erase_exhausted_def hw_idle_def flash_read_sr_def spi_xfer_def)
  from retry_stays_exhausted [OF a b c] a b c show ?thesis
    by (metis (no_types, lifting))
qed


section \<open>The double buffer\<close>

text \<open>
  The precondition on the producer: along the run, every commit finds \<open>used < 2\<close>.
\<close>

fun commits_guarded :: "writer_ev list \<Rightarrow> dfu \<Rightarrow> bool" where
  "commits_guarded [] s = True"
| "commits_guarded (Commit # es) s = (buf_used s < 2 \<and> commits_guarded es (dfu_dnload_done_cb s))"
| "commits_guarded (Tick # es) s =
     (case dfu_tick s of None \<Rightarrow> True | Some s' \<Rightarrow> commits_guarded es s')"

text \<open>
  The invariant that the proof carries: the three shapes of the buffer, with \<open>wr\<close> one
  flip ahead of \<open>rd\<close> when one slot is filled, and a writer that is not idle holds a
  buffer (so a release never finds \<open>used = 0\<close>).
\<close>

definition buf_inv :: "dfu \<Rightarrow> bool" where
  "buf_inv s =
     ((buf_used s = 0 \<and> buf_wr s = buf_rd s \<or>
       buf_used s = 1 \<and> buf_wr s = buf_rd s XOR 1 \<or>
       buf_used s = 2 \<and> buf_wr s = buf_rd s) \<and>
      (flash_op s = FL_IDLE \<or> buf_used s \<noteq> 0))"

lemma tick_program_buf:
  "tick_program s = Some s' \<Longrightarrow>
     buf_wr s' = buf_wr s \<and>
     (buf_used s' = buf_used s \<and> buf_rd s' = buf_rd s \<and>
        (flash_op s' = FL_IDLE \<or> flash_op s \<noteq> FL_IDLE) \<or>
      buf_used s' = buf_used s - 1 \<and> buf_rd s' = buf_rd s XOR 1 \<and> flash_op s' = FL_IDLE \<and>
        flash_op s \<noteq> FL_IDLE)"
  by (auto simp: tick_program_def flash_wo_eqs Let_def split: if_splits)

lemma tick_erase_buf:
  "tick_erase s = Some s' \<Longrightarrow>
     buf_wr s' = buf_wr s \<and> buf_used s' = buf_used s \<and> buf_rd s' = buf_rd s \<and>
     (flash_op s' = FL_IDLE \<or> flash_op s \<noteq> FL_IDLE)"
  by (auto simp: tick_erase_def flash_wo_eqs Let_def split: if_splits option.splits)

lemma tick_work_buf:
  assumes "tick_work s = Some s'"
  shows "buf_wr s' = buf_wr s \<and>
     (buf_used s' = buf_used s \<and> buf_rd s' = buf_rd s \<and>
        (flash_op s' = FL_IDLE \<or> flash_op s \<noteq> FL_IDLE) \<or>
      buf_used s' = buf_used s - 1 \<and> buf_rd s' = buf_rd s XOR 1 \<and> flash_op s' = FL_IDLE)"
proof (cases "prog_retry s = 0")
  case True
  with assms show ?thesis
    by (auto simp: tick_work_fatal tick_fatal_def usb_dfu_cb_reboot_def flashchip_select_def)
next
  case False
  with assms obtain s2 where
    e: "tick_erase (s\<lparr>hw := flashchip_select (selected s) (hw s)\<rparr>) = Some s2" and
    p: "tick_program s2 = Some s'"
    by (auto simp: tick_work_def Let_def split: option.splits)
  from tick_erase_buf [OF e] tick_program_buf [OF p] show ?thesis by auto
qed

lemma dfu_tick_buf:
  assumes "dfu_tick s = Some s'"
  shows "buf_wr s' = buf_wr s \<and>
     (buf_used s' = buf_used s \<and> buf_rd s' = buf_rd s \<and>
        (flash_op s' = FL_IDLE \<or> flash_op s \<noteq> FL_IDLE \<or> buf_used s \<noteq> 0) \<or>
      buf_used s' = buf_used s - 1 \<and> buf_rd s' = buf_rd s XOR 1 \<and> flash_op s' = FL_IDLE \<and>
        (flash_op s \<noteq> FL_IDLE \<or> buf_used s \<noteq> 0))"
proof (cases "flash_op s = FL_IDLE")
  case True
  show ?thesis
  proof (cases "buf_used s = 0")
    case True
    with \<open>flash_op s = FL_IDLE\<close> assms show ?thesis by (simp add: dfu_tick_def)
  next
    case False
    with \<open>flash_op s = FL_IDLE\<close> assms
    have "tick_work (s\<lparr>flash_op := FL_ERASE, op_len := 4096, op_ofs := 0\<rparr>) = Some s'"
      by (simp add: dfu_tick_def)
    from tick_work_buf [OF this] False show ?thesis by auto
  qed
next
  case False
  with assms obtain sr h1 where
    r: "flash_read_sr (hw s) = Some (sr, h1)" and
    w: "sr AND 1 \<noteq> 0 \<and> s' = s\<lparr>hw := h1\<rparr> \<or> tick_work (s\<lparr>hw := h1\<rparr>) = Some s'"
    by (auto simp: dfu_tick_def split: option.splits if_splits)
  from w show ?thesis
  proof
    assume "sr AND 1 \<noteq> 0 \<and> s' = s\<lparr>hw := h1\<rparr>"
    with False show ?thesis by simp
  next
    assume "tick_work (s\<lparr>hw := h1\<rparr>) = Some s'"
    from tick_work_buf [OF this] False show ?thesis by auto
  qed
qed

lemma xor_1_twice: "(x XOR 1) XOR 1 = (x :: 8 word)"
  by (simp add: xor.assoc)

lemma xor_1_neq: "x XOR 1 \<noteq> (x :: 8 word)"
  by (metis xor_self_eq bit.xor_left_self one_neq_zero)

lemma xor_1_neq': "x \<noteq> x XOR (1 :: 8 word)"
  using xor_1_neq [of x] by simp

lemma buf_inv_tick: "buf_inv s \<Longrightarrow> dfu_tick s = Some s' \<Longrightarrow> buf_inv s'"
  using dfu_tick_buf [of s s']
  by (auto simp: buf_inv_def xor_1_twice)

lemma buf_inv_commit: "buf_inv s \<Longrightarrow> buf_used s < 2 \<Longrightarrow> buf_inv (dfu_dnload_done_cb s)"
  by (auto simp: buf_inv_def dfu_dnload_done_cb_def xor_1_twice)

lemma buf_inv_run:
  "buf_inv s \<Longrightarrow> commits_guarded es s \<Longrightarrow> writer_run es s = Some s' \<Longrightarrow> buf_inv s'"
proof (induction es arbitrary: s)
  case Nil
  then show ?case by simp
next
  case (Cons e es)
  show ?case
  proof (cases e)
    case Commit
    with Cons.prems have g: "buf_used s < 2" "commits_guarded es (dfu_dnload_done_cb s)"
      and r: "writer_run es (dfu_dnload_done_cb s) = Some s'"
      by simp_all
    from Cons.IH [OF buf_inv_commit [OF Cons.prems(1) g(1)] g(2) r] show ?thesis .
  next
    case Tick
    with Cons.prems obtain s1 where
      t: "dfu_tick s = Some s1" and g: "commits_guarded es s1" and r: "writer_run es s1 = Some s'"
      by (auto split: option.splits)
    from Cons.IH [OF buf_inv_tick [OF Cons.prems(1) t] g r] show ?thesis .
  qed
qed

lemma buf_inv_boot: "buf_inv (dfu_boot h)"
  by (simp add: buf_inv_def dfu_boot_def usb_dfu_init_def)

text \<open>
  C6. In every state reached from the zeroed initial state by a sequence of commit
  callbacks and writer ticks in which each commit runs with \<open>used < 2\<close>: \<open>used\<close> is 0, 1
  or 2; \<open>used = 0\<close> implies \<open>wr = rd\<close>; \<open>used = 2\<close> implies \<open>wr = rd\<close>; \<open>used = 1\<close> implies
  \<open>wr \<noteq> rd\<close>. That a release happens only with \<open>used > 0\<close> need not be assumed: it follows.
\<close>

theorem double_buffer_invariant:
  assumes "commits_guarded es (dfu_boot h)" and "writer_run es (dfu_boot h) = Some s"
  shows "(buf_used s = 0 \<or> buf_used s = 1 \<or> buf_used s = 2) \<and>
         (buf_used s = 0 \<longrightarrow> buf_wr s = buf_rd s) \<and>
         (buf_used s = 2 \<longrightarrow> buf_wr s = buf_rd s) \<and>
         (buf_used s = 1 \<longrightarrow> buf_wr s \<noteq> buf_rd s)"
proof -
  from buf_inv_run [OF buf_inv_boot assms] have "buf_inv s" .
  then show ?thesis by (auto simp: buf_inv_def xor_1_neq xor_1_neq')
qed

theorem double_buffer_invariant_witness:
  "commits_guarded [Tick, Commit, Commit] (dfu_boot (hw_idle [])) \<and>
   (\<exists>s. writer_run [Tick, Commit, Commit] (dfu_boot (hw_idle [])) = Some s \<and>
      buf_used s = 2 \<and> buf_wr s = buf_rd s)"
proof -
  have g: "commits_guarded [Tick, Commit, Commit] (dfu_boot (hw_idle []))"
    by (simp add: dfu_boot_def usb_dfu_init_def dfu_tick_def dfu_dnload_done_cb_def)
  have "writer_run [Tick, Commit, Commit] (dfu_boot (hw_idle [])) \<noteq> None"
    by (simp add: dfu_boot_def usb_dfu_init_def dfu_tick_def dfu_dnload_done_cb_def)
  then obtain s where r: "writer_run [Tick, Commit, Commit] (dfu_boot (hw_idle [])) = Some s"
    by auto
  then have u: "buf_used s = 2"
    by (auto simp: dfu_boot_def usb_dfu_init_def dfu_tick_def dfu_dnload_done_cb_def)
  from double_buffer_invariant [OF g r] g r u show ?thesis by simp
qed

section \<open>Interface selection\<close>

text \<open>
  The zone table as the spec prints it: (chip, start, end) for the alternate settings 0
  to 6.
\<close>

definition spec_zone_table :: "(32 word \<times> 32 word \<times> 32 word) list" where
  "spec_zone_table =
     [(FLASHCHIP_INTERNAL, 0x00200000, 0x01000000),
      (FLASHCHIP_INTERNAL, 0x00340000, 0x00380000),
      (FLASHCHIP_INTERNAL, 0x00380000, 0x01000000),
      (FLASHCHIP_INTERNAL, 0x00400000, 0x01000000),
      (FLASHCHIP_INTERNAL, 0x00800000, 0x01000000),
      (FLASHCHIP_INTERNAL, 0x00000000, 0x00200000),
      (FLASHCHIP_CART, 0x00000000, 0x00000100)]"

text \<open>A descriptor of the DFU interface: class 0xfe, subclass 0x01, protocol 0x02.\<close>

definition is_dfu_intf :: "usb_intf_desc \<Rightarrow> bool" where
  "is_dfu_intf d =
     (bInterfaceClass d = 0xfe \<and> bInterfaceSubClass d = 0x01 \<and> bInterfaceProtocol d = 0x02)"

lemma length_dfu_zones: "length dfu_zones = 7"
  by (simp add: dfu_zones_def)

lemma zone_at_Some: "i \<le> 6 \<Longrightarrow> zone_at i = Some (dfu_zones ! unat i)"
  by (simp add: zone_at_def length_dfu_zones word_le_nat_alt)

lemma zone_at_None: "6 < i \<Longrightarrow> zone_at i = None"
  by (simp add: zone_at_def length_dfu_zones word_less_nat_alt)

lemma dfu_set_intf_ok:
  assumes "is_dfu_intf sel" and "bAlternateSetting sel \<le> 6"
  shows "dfu_set_intf base sel s =
     Some (USB_FND_SUCCESS,
           s\<lparr>state := dfuIDLE, intf := bInterfaceNumber sel, alt := bAlternateSetting sel,
             addr_recv := zone_start (dfu_zones ! unat (bAlternateSetting sel)),
             addr_read := zone_start (dfu_zones ! unat (bAlternateSetting sel)),
             addr_prog := zone_start (dfu_zones ! unat (bAlternateSetting sel)),
             addr_erase := zone_start (dfu_zones ! unat (bAlternateSetting sel)),
             addr_end := zone_end (dfu_zones ! unat (bAlternateSetting sel)),
             selected := flashsel (dfu_zones ! unat (bAlternateSetting sel))\<rparr>)"
  using assms by (simp add: dfu_set_intf_def is_dfu_intf_def zone_at_Some Let_def)

lemma dfu_set_intf_oob:
  assumes "is_dfu_intf sel" and "6 < bAlternateSetting sel"
  shows "dfu_set_intf base sel s = None"
  using assms by (simp add: dfu_set_intf_def is_dfu_intf_def zone_at_None Let_def)

lemma dfu_zones_spec:
  "map (\<lambda>z. (flashsel z, zone_start z, zone_end z)) dfu_zones = spec_zone_table"
  by (simp add: dfu_zones_def spec_zone_table_def)

text \<open>
  C7. For every set-interface request that selects an alternate setting \<open>alt \<le> 6\<close> on the
  DFU interface: the handler succeeds, the state becomes \<open>dfuIDLE\<close>, the four cursors
  \<open>addr_recv\<close>, \<open>addr_read\<close>, \<open>addr_prog\<close>, \<open>addr_erase\<close> are the start of zone \<open>alt\<close>,
  \<open>addr_end\<close> is its end and \<open>selected\<close> its chip; and the zone table of the code is, row
  by row, the table of the spec.
\<close>

theorem set_intf_selects_zone:
  assumes "is_dfu_intf sel" and "bAlternateSetting sel \<le> 6"
  shows "map (\<lambda>z. (flashsel z, zone_start z, zone_end z)) dfu_zones = spec_zone_table \<and>
    (\<exists>s'. dfu_set_intf base sel s = Some (USB_FND_SUCCESS, s') \<and>
       state s' = dfuIDLE \<and>
       (selected s', addr_recv s', addr_end s') = spec_zone_table ! unat (bAlternateSetting sel) \<and>
       addr_read s' = addr_recv s' \<and> addr_prog s' = addr_recv s' \<and> addr_erase s' = addr_recv s' \<and>
       addr_recv s' = zone_start (dfu_zones ! unat (bAlternateSetting sel)) \<and>
       addr_end s' = zone_end (dfu_zones ! unat (bAlternateSetting sel)) \<and>
       selected s' = flashsel (dfu_zones ! unat (bAlternateSetting sel)))"
proof -
  from assms(2) have lt: "unat (bAlternateSetting sel) < length dfu_zones"
    by (simp add: length_dfu_zones word_le_nat_alt)
  have "spec_zone_table ! unat (bAlternateSetting sel) =
        (\<lambda>z. (flashsel z, zone_start z, zone_end z)) (dfu_zones ! unat (bAlternateSetting sel))"
    using nth_map [OF lt, of "\<lambda>z. (flashsel z, zone_start z, zone_end z)"]
    by (simp add: dfu_zones_spec)
  with dfu_set_intf_ok [OF assms, of base s] dfu_zones_spec show ?thesis by simp
qed

definition dfu_intf_alt :: "8 word \<Rightarrow> usb_intf_desc" where
  "dfu_intf_alt a =
     \<lparr>bInterfaceNumber = 0, bAlternateSetting = a, bInterfaceClass = 0xfe,
      bInterfaceSubClass = 0x01, bInterfaceProtocol = 0x02\<rparr>"

theorem set_intf_selects_zone_witness:
  "is_dfu_intf (dfu_intf_alt 6) \<and> bAlternateSetting (dfu_intf_alt 6) \<le> 6 \<and>
   (\<exists>s'. dfu_set_intf (dfu_intf_alt 0) (dfu_intf_alt 6) (dfu_boot (hw_idle [])) =
          Some (USB_FND_SUCCESS, s') \<and>
      state s' = dfuIDLE \<and> selected s' = FLASHCHIP_CART \<and>
      addr_recv s' = 0 \<and> addr_read s' = 0 \<and> addr_prog s' = 0 \<and> addr_erase s' = 0 \<and>
      addr_end s' = 0x100)"
proof -
  have a: "is_dfu_intf (dfu_intf_alt 6)" and b: "bAlternateSetting (dfu_intf_alt 6) \<le> 6"
    by (simp_all add: is_dfu_intf_def dfu_intf_alt_def)
  have c: "spec_zone_table ! unat (bAlternateSetting (dfu_intf_alt 6)) = (FLASHCHIP_CART, 0, 0x100)"
    by (simp add: spec_zone_table_def dfu_intf_alt_def)
  from set_intf_selects_zone [OF a b, of "dfu_intf_alt 0" "dfu_boot (hw_idle [])"] a b c
  show ?thesis by auto
qed

text \<open>
  C10. The zone table has seven entries and the handler indexes it by the alternate
  setting without a check. On the DFU interface the six reads stay inside the table, and
  the handler has a result, exactly when the alternate setting is at most 6; above 6 the
  reads leave the table.
\<close>

theorem set_intf_table_bound:
  assumes "is_dfu_intf sel"
  shows "length dfu_zones = 7 \<and>
         ((\<exists>r. dfu_set_intf base sel s = Some r) \<longleftrightarrow> bAlternateSetting sel \<le> 6) \<and>
         ((dfu_set_intf base sel s = None) \<longleftrightarrow> 6 < bAlternateSetting sel)"
proof (cases "bAlternateSetting sel \<le> 6")
  case True
  with dfu_set_intf_ok [OF assms True, of base s] show ?thesis
    by (simp add: length_dfu_zones)
next
  case False
  then have "6 < bAlternateSetting sel" by simp
  with dfu_set_intf_oob [OF assms this, of base s] False show ?thesis
    by (simp add: length_dfu_zones)
qed

theorem set_intf_table_bound_witness:
  "is_dfu_intf (dfu_intf_alt 7) \<and> length dfu_zones = 7 \<and>
   dfu_set_intf (dfu_intf_alt 0) (dfu_intf_alt 7) (dfu_boot (hw_idle [])) = None \<and>
   6 < bAlternateSetting (dfu_intf_alt 7)"
proof -
  have a: "is_dfu_intf (dfu_intf_alt 7)"
    by (simp add: is_dfu_intf_def dfu_intf_alt_def)
  have b: "6 < bAlternateSetting (dfu_intf_alt 7)"
    by (simp add: dfu_intf_alt_def)
  from set_intf_table_bound [OF a, of "dfu_intf_alt 0" "dfu_boot (hw_idle [])"] a b
  show ?thesis by simp
qed

section \<open>Control requests on the DFU interface\<close>

text \<open>The two bytes of \<^verbatim>\<open>wRequestAndType\<close> are the request number and the type byte.\<close>

lemma wRequestAndType_fields:
  "ucast (wRequestAndType req) = bmRequestType req \<and>
   ucast (drop_bit 8 (wRequestAndType req)) = bRequest req"
proof -
  have hi: "\<not> bit (bmRequestType req) (8 + n)" for n
    using bit_imp_le_length [of "bmRequestType req" "8 + n"] by auto
  show ?thesis
    unfolding wRequestAndType_def
    by (auto intro!: bit_word_eqI simp: bit_simps hi)
qed

lemma rt_dnload: "wRequestAndType req = USB_RT_DFU_DNLOAD \<longleftrightarrow> bRequest req = 1 \<and> bmRequestType req = 0x21"
proof
  assume a: "wRequestAndType req = USB_RT_DFU_DNLOAD"
  from wRequestAndType_fields [of req] show "bRequest req = 1 \<and> bmRequestType req = 0x21"
    unfolding a by (simp add: USB_RT_DFU_DNLOAD_def)
next
  assume "bRequest req = 1 \<and> bmRequestType req = 0x21"
  then show "wRequestAndType req = USB_RT_DFU_DNLOAD"
    by (simp add: wRequestAndType_def USB_RT_DFU_DNLOAD_def)
qed



lemmas usb_consts =
  USB_REQ_TYPE_def USB_REQ_RCPT_def USB_REQ_TYPE_CLASS_def USB_REQ_TYPE_VENDOR_def
  USB_REQ_RCPT_INTF_def
  USB_REQ_DFU_DETACH_def USB_REQ_DFU_DNLOAD_def USB_REQ_DFU_UPLOAD_def USB_REQ_DFU_GETSTATUS_def
  USB_REQ_DFU_CLRSTATUS_def USB_REQ_DFU_GETSTATE_def USB_REQ_DFU_ABORT_def
  USB_RT_DFU_DETACH_def USB_RT_DFU_DNLOAD_def USB_RT_DFU_UPLOAD_def USB_RT_DFU_GETSTATUS_def
  USB_RT_DFU_CLRSTATUS_def USB_RT_DFU_GETSTATE_def USB_RT_DFU_ABORT_def

text \<open>A request is allowed in a state when the state's mask has the request's bit.\<close>

definition dfu_req_allowed :: "dfu_state \<Rightarrow> nat \<Rightarrow> bool" where
  "dfu_req_allowed st n = (dfu_valid_req st AND req_bit n \<noteq> 0)"

lemma dnload_allowed_iff:
  "dfu_req_allowed st USB_REQ_DFU_DNLOAD \<longleftrightarrow>
     st = dfuIDLE \<or> st = dfuDNLOAD_SYNC \<or> st = dfuDNLOAD_IDLE"
  by (cases st) (simp_all add: dfu_req_allowed_def req_bit_def usb_consts)


text \<open>A DNLOAD request on the DFU interface reaches the case of the switch, or the gate.\<close>

lemma ctrl_req_dnload:
  assumes "wIndex req = ucast (intf s)" and "wRequestAndType req = USB_RT_DFU_DNLOAD"
  shows "dfu_ctrl_req vendor req xfer s =
     (if dfu_req_allowed (state s) USB_REQ_DFU_DNLOAD then dfu_req_dnload req xfer s
      else Some (dfu_error xfer s))"
proof -
  from assms(2) have f: "bRequest req = 1" "bmRequestType req = 0x21"
    by (simp_all add: rt_dnload)
  with assms show ?thesis
    by (simp add: dfu_ctrl_req_def dfu_class_req_def dfu_req_allowed_def req_bit_def usb_consts Let_def)
qed


section \<open>Stores through a buffer pointer\<close>

text \<open>
  What a store does to the rest of \<^verbatim>\<open>g_dfu\<close>: the members in front of the array, the
  statics and the controller are out of its reach, and a store within the array leaves
  the members behind it alone.
\<close>

lemma flash_store_frame:
  "flash_store k v s = Some s' \<Longrightarrow>
     state s' = state s \<and> status s' = status s \<and> intf s' = intf s \<and> alt s' = alt s \<and>
     tick s' = tick s \<and> buf_used s' = buf_used s \<and> buf_wr s' = buf_wr s \<and>
     buf_rd s' = buf_rd s \<and> buf_data s' = buf_data s \<and> prog_retry s' = prog_retry s \<and>
     should s' = should s \<and> hw s' = hw s \<and> reboots s' = reboots s \<and>
     overruns s' = overruns s"
  by (auto simp: flash_store_def Let_def split: if_splits)




text \<open>Stores that stay inside the array always have a result, and change the array only.\<close>

lemma dfu_store_bytes_in:
  "0 \<le> a \<Longrightarrow> a + int (length vs) \<le> 8192 \<Longrightarrow>
     dfu_store_bytes a vs s =
       Some (s\<lparr>buf_data := (\<lambda>x. if a \<le> x \<and> x < a + int (length vs) then vs ! nat (x - a)
                                else buf_data s x)\<rparr>)"
proof (induction vs arbitrary: a s)
  case Nil
  have "(\<lambda>x. if a \<le> x \<and> x < a + int (length ([] :: 8 word list)) then [] ! nat (x - a)
             else buf_data s x) = buf_data s"
    by (rule ext) auto
  then show ?case by simp
next
  case (Cons v vs)
  from Cons.prems have st: "dfu_store a v s = Some (s\<lparr>buf_data := (buf_data s)(a := v)\<rparr>)"
    by (simp add: dfu_store_def)
  from Cons.prems have "0 \<le> a + 1" "a + 1 + int (length vs) \<le> 8192" by simp_all
  note ih = Cons.IH [OF this, of "s\<lparr>buf_data := (buf_data s)(a := v)\<rparr>"]
  have "(\<lambda>x. if a + 1 \<le> x \<and> x < a + 1 + int (length vs) then vs ! nat (x - (a + 1))
             else ((buf_data s)(a := v)) x) =
        (\<lambda>x. if a \<le> x \<and> x < a + int (length (v # vs)) then (v # vs) ! nat (x - a)
             else buf_data s x)"
  proof
    fix x
    show "(if a + 1 \<le> x \<and> x < a + 1 + int (length vs) then vs ! nat (x - (a + 1))
             else ((buf_data s)(a := v)) x) =
          (if a \<le> x \<and> x < a + int (length (v # vs)) then (v # vs) ! nat (x - a)
             else buf_data s x)"
    proof (cases "x = a")
      case True
      then show ?thesis by simp
    next
      case False
      have "a + 1 \<le> x \<Longrightarrow> nat (x - a) = Suc (nat (x - (a + 1)))" by arith
      with False show ?thesis by auto
    qed
  qed
  with st ih show ?case by (simp cong: if_cong)
qed

lemma dfu_memset_in:
  "0 \<le> a \<Longrightarrow> a + int n \<le> 8192 \<Longrightarrow>
     dfu_store_bytes a (replicate n v) s =
       Some (s\<lparr>buf_data := (\<lambda>x. if a \<le> x \<and> x < a + int n then v else buf_data s x)\<rparr>)"
proof -
  assume a: "0 \<le> a" "a + int n \<le> 8192"
  have "(\<lambda>x. if a \<le> x \<and> x < a + int (length (replicate n v)) then replicate n v ! nat (x - a)
             else buf_data s x) =
        (\<lambda>x. if a \<le> x \<and> x < a + int n then v else buf_data s x)"
    by (rule ext) auto
  with dfu_store_bytes_in [of a "replicate n v" s] a show ?thesis by simp
qed


section \<open>The bound of a download\<close>

lemma unat_ucast_16_32: "unat (ucast (w :: 16 word) :: 32 word) = unat w"
proof -
  have "unat w < 2 ^ 16" using unsigned_less [of w] by simp
  then have "unat w < 2 ^ 32" by simp
  then show ?thesis by (simp add: unsigned_ucast_eq take_bit_nat_eq_self)
qed

lemma unat_add_length:
  "unat (a :: 32 word) + unat (w :: 16 word) < 2 ^ 32 \<Longrightarrow>
     unat (a + ucast w) = unat a + unat w"
  using unat_add_lem [of a "ucast w :: 32 word"] by (simp add: unat_ucast_16_32)

text \<open>
  The filling of the slot stays inside the array when \<open>wr\<close> is one of the two slots.
\<close>

lemma dnload_fill:
  assumes "buf_wr s \<le> 1" and "len < (4096 :: 32 word)"
  shows "\<exists>d. dfu_store_bytes (4096 * uint (buf_wr s) + uint len)
                (replicate (4096 - unat len) 0xff) s = Some (s\<lparr>buf_data := d\<rparr>)"
proof -
  from assms(1) have w: "uint (buf_wr s) \<le> 1" by (simp add: word_le_def)
  have w0: "0 \<le> uint (buf_wr s)" by simp
  from assms(2) have "unat len < 4096" by (simp add: word_less_nat_alt)
  moreover have u: "uint len = int (unat len)" by simp
  ultimately have l: "uint len + int (4096 - unat len) = 4096" by linarith
  have l0: "0 \<le> uint len" by simp
  have a: "0 \<le> 4096 * uint (buf_wr s) + uint len" using w0 l0 by linarith
  have b: "4096 * uint (buf_wr s) + uint len + int (4096 - unat len) \<le> 8192"
    using w l by linarith
  from dfu_memset_in [OF a b] show ?thesis by blast
qed

text \<open>
  What the check of a download does. For a DNLOAD request on the DFU interface with
  \<open>wLength > 0\<close>, in a state in which DNLOAD is allowed: the length is added to \<open>addr_recv\<close>
  in 32 bits; if the cursor is then above \<open>addr_end\<close> the handler returns the ERROR
  disposition and the machine is in \<open>dfuERROR\<close> with status \<open>errUNKNOWN\<close>, the length
  staying added; otherwise the handler returns SUCCESS, the state and the status are
  unchanged, and the transfer is set up on slot \<open>wr\<close> with the commit callback. The
  32-bit sum is the sum of the two numbers only when that is below \<open>2^32\<close>.
\<close>

lemma dnload_check_32bit:
  assumes "wIndex req = ucast (intf s)" and "wRequestAndType req = USB_RT_DFU_DNLOAD"
    and "wLength req \<noteq> 0" and "dfu_req_allowed (state s) USB_REQ_DFU_DNLOAD"
    and "buf_wr s \<le> 1"
  shows
    "(if addr_end s < addr_recv s + ucast (wLength req)
      then dfu_ctrl_req vendor req xfer s =
             Some (USB_FND_ERROR, xfer,
                   s\<lparr>addr_recv := addr_recv s + ucast (wLength req),
                     state := dfuERROR, status := errUNKNOWN\<rparr>)
      else (\<exists>xfer' s'. dfu_ctrl_req vendor req xfer s = Some (USB_FND_SUCCESS, xfer', s') \<and>
              state s' = state s \<and> status s' = status s \<and>
              addr_recv s' = addr_recv s + ucast (wLength req) \<and>
              addr_end s' = addr_end s \<and>
              xfer_cb_done xfer' = Some Dfu_dnload_done_cb \<and>
              xfer_len xfer' = ucast (wLength req) \<and>
              xfer_data xfer' = DfuBuf (4096 * uint (buf_wr s)))) \<and>
     (unat (addr_recv s) + unat (wLength req) < 2 ^ 32 \<longrightarrow>
        (addr_end s < addr_recv s + ucast (wLength req)) =
        (unat (addr_end s) < unat (addr_recv s) + unat (wLength req)))"
proof -
  let ?s1 = "s\<lparr>addr_recv := addr_recv s + ucast (wLength req)\<rparr>"
  have c: "dfu_ctrl_req vendor req xfer s = dfu_req_dnload req xfer s"
    using ctrl_req_dnload [OF assms(1,2)] assms(4) by simp
  have n: "unat (addr_recv s) + unat (wLength req) < 2 ^ 32 \<longrightarrow>
        (addr_end s < addr_recv s + ucast (wLength req)) =
        (unat (addr_end s) < unat (addr_recv s) + unat (wLength req))"
    by (simp add: word_less_nat_alt unat_add_length)
  show ?thesis
  proof (cases "addr_end s < addr_recv s + ucast (wLength req)")
    case True
    with assms(3) have "dfu_req_dnload req xfer s =
        Some (USB_FND_ERROR, xfer, ?s1\<lparr>state := dfuERROR, status := errUNKNOWN\<rparr>)"
      by (simp add: dfu_req_dnload_def dfu_error_def Let_def)
    with True c n show ?thesis by simp
  next
    case False
    let ?x1 = "xfer\<lparr>xfer_len := ucast (wLength req),
                     xfer_data := DfuBuf (4096 * uint (buf_wr s)),
                     xfer_cb_done := Some Dfu_dnload_done_cb\<rparr>"
    have "\<exists>s'. dfu_req_dnload req xfer s = Some (USB_FND_SUCCESS, ?x1, s') \<and>
            (\<exists>d. s' = ?s1\<lparr>buf_data := d\<rparr>)"
    proof (cases "(ucast (wLength req) :: 32 word) < 4096")
      case short: True
      have w1: "buf_wr ?s1 \<le> 1" using assms(5) by simp
      from dnload_fill [OF w1 short] obtain d where
        "dfu_store_bytes (4096 * uint (buf_wr s) + uint (ucast (wLength req) :: 32 word))
           (replicate (4096 - unat (ucast (wLength req) :: 32 word)) 0xff) ?s1 =
         Some (?s1\<lparr>buf_data := d\<rparr>)"
        by auto
      with False short assms(3) have
        "dfu_req_dnload req xfer s = Some (USB_FND_SUCCESS, ?x1, ?s1\<lparr>buf_data := d\<rparr>)"
        by (simp add: dfu_req_dnload_def Let_def)
      then show ?thesis by blast
    next
      case long: False
      with False assms(3) have
        "dfu_req_dnload req xfer s = Some (USB_FND_SUCCESS, ?x1, ?s1)"
        by (simp add: dfu_req_dnload_def Let_def)
      moreover have "?s1 = ?s1\<lparr>buf_data := buf_data ?s1\<rparr>" by simp
      ultimately show ?thesis by blast
    qed
    then obtain s' d where
      r: "dfu_req_dnload req xfer s = Some (USB_FND_SUCCESS, ?x1, s')" and
      s': "s' = ?s1\<lparr>buf_data := d\<rparr>"
      by blast
    from s' have "state s' = state s \<and> status s' = status s \<and>
        addr_recv s' = addr_recv s + ucast (wLength req) \<and> addr_end s' = addr_end s"
      by simp
    with False c r n show ?thesis by simp
  qed
qed


lemma rt_clrstatus:
  "wRequestAndType req = USB_RT_DFU_CLRSTATUS \<longleftrightarrow> bRequest req = 4 \<and> bmRequestType req = 0x21"
proof
  assume a: "wRequestAndType req = USB_RT_DFU_CLRSTATUS"
  from wRequestAndType_fields [of req] show "bRequest req = 4 \<and> bmRequestType req = 0x21"
    unfolding a by (simp add: USB_RT_DFU_CLRSTATUS_def)
next
  assume "bRequest req = 4 \<and> bmRequestType req = 0x21"
  then show "wRequestAndType req = USB_RT_DFU_CLRSTATUS"
    by (simp add: wRequestAndType_def USB_RT_DFU_CLRSTATUS_def)
qed

lemma ctrl_req_clrstatus:
  assumes "wIndex req = ucast (intf s)" and "wRequestAndType req = USB_RT_DFU_CLRSTATUS"
    and "state s = dfuERROR"
  shows "dfu_ctrl_req vendor req xfer s =
     Some (USB_FND_SUCCESS, xfer, s\<lparr>state := dfuIDLE, status := OK\<rparr>)"
proof -
  from assms(2) have f: "bRequest req = 4" "bmRequestType req = 0x21"
    by (simp_all add: rt_clrstatus)
  with assms show ?thesis
    by (simp add: dfu_ctrl_req_def dfu_class_req_def req_bit_def usb_consts Let_def)
qed

text \<open>
  The failing input. Zone 6 (the cart, 0x000 to 0x100) is selected. A download of 0xFFFF
  bytes is rejected, which leaves the length added to \<open>addr_recv\<close>, and CLRSTATUS brings
  the machine back to \<open>dfuIDLE\<close>; the host does this 65537 times. Then it sends a download
  of one byte.
\<close>

definition dnload_req :: "16 word \<Rightarrow> usb_ctrl_req" where
  "dnload_req n = \<lparr>bmRequestType = 0x21, bRequest = 1, wValue = 0, wIndex = 0, wLength = n\<rparr>"

definition clrstatus_req :: usb_ctrl_req where
  "clrstatus_req = \<lparr>bmRequestType = 0x21, bRequest = 4, wValue = 0, wIndex = 0, wLength = 0\<rparr>"

definition xfer0 :: usb_xfer where
  "xfer0 = \<lparr>xfer_data = XferOwn, xfer_len = 0, xfer_cb_done = None, xfer_own = (\<lambda>i. 0)\<rparr>"

definition no_vendor :: vendor_fn where
  "no_vendor req xfer d = (USB_FND_ERROR, xfer, [])"

definition evs_select6 :: "dfu_event list" where
  "evs_select6 =
     [Ev_state_chg USB_DS_CONFIGURED, Ev_set_intf (dfu_intf_alt 0) (dfu_intf_alt 6)]"

definition evs_reject :: "dfu_event list" where
  "evs_reject = [Ev_ctrl_req (dnload_req 0xFFFF) xfer0, Ev_ctrl_req clrstatus_req xfer0]"

definition evs_wrap :: "dfu_event list" where
  "evs_wrap = evs_select6 @ concat (replicate 65537 evs_reject)"

definition dnload_view ::
  "usb_fnd_resp list \<times> dfu \<Rightarrow> usb_fnd_resp \<times> dfu_state \<times> dfu_status \<times> 32 word \<times> 32 word" where
  "dnload_view p =
     (last (fst p), state (snd p), status (snd p), addr_recv (snd p), addr_end (snd p))"

lemma dfu_run_append:
  "dfu_run vendor (es1 @ es2) s =
     (case dfu_run vendor es1 s of
        None \<Rightarrow> None
      | Some (rs1, s1) \<Rightarrow>
          (case dfu_run vendor es2 s1 of
             None \<Rightarrow> None
           | Some (rs2, s2) \<Rightarrow> Some (rs1 @ rs2, s2)))"
  by (induction es1 arbitrary: s) (auto split: option.splits)

lemma run_select6:
  "\<exists>s. dfu_run no_vendor evs_select6 (dfu_boot h) = Some ([], s) \<and>
       state s = dfuIDLE \<and> intf s = 0 \<and> buf_wr s = 0 \<and>
       addr_prog s = 0 \<and> addr_recv s = 0 \<and> addr_end s = 0x100 \<and> overruns s = []"
  by (simp add: evs_select6_def dfu_boot_def usb_dfu_init_def dfu_state_chg_def
        dfu_set_intf_def dfu_intf_alt_def zone_at_def dfu_zones_def Let_def)

lemma round_above:
  assumes "k < 65537"
  shows "(0x100 :: 32 word) < of_nat k * 0xFFFF + 0xFFFF"
proof -
  have e: "(of_nat k * 0xFFFF + 0xFFFF :: 32 word) = of_nat (Suc k * 65535)" by simp
  from assms have "Suc k * 65535 \<le> 65537 * 65535" by simp
  then have lt: "Suc k * 65535 < 2 ^ 32" by simp
  have "unat (of_nat (Suc k * 65535) :: 32 word) = Suc k * 65535"
    using lt by (simp add: unat_of_nat take_bit_nat_eq_self del: of_nat_mult of_nat_Suc mult_Suc)
  moreover have "256 < Suc k * 65535" by simp
  ultimately show ?thesis
    unfolding e by (simp add: word_less_nat_alt del: of_nat_mult of_nat_Suc mult_Suc)
qed

lemma run_reject:
  assumes "state s = dfuIDLE" and "intf s = 0" and "addr_end s = 0x100"
    and "0x100 < addr_recv s + 0xFFFF"
  shows "dfu_run vendor evs_reject s =
     Some ([USB_FND_ERROR, USB_FND_SUCCESS],
           s\<lparr>addr_recv := addr_recv s + 0xFFFF, state := dfuIDLE, status := OK\<rparr>)"
proof -
  let ?s1 = "s\<lparr>addr_recv := addr_recv s + 0xFFFF, state := dfuERROR, status := errUNKNOWN\<rparr>"
  have i: "wIndex (dnload_req 0xFFFF) = ucast (intf s)"
    using assms(2) by (simp add: dnload_req_def)
  have r: "wRequestAndType (dnload_req 0xFFFF) = USB_RT_DFU_DNLOAD"
    by (simp add: rt_dnload dnload_req_def)
  have al: "dfu_req_allowed (state s) USB_REQ_DFU_DNLOAD"
    using assms(1) by (simp add: dnload_allowed_iff)
  have "dfu_ctrl_req vendor (dnload_req 0xFFFF) xfer0 s = dfu_req_dnload (dnload_req 0xFFFF) xfer0 s"
    using ctrl_req_dnload [OF i r] al by simp
  also have "\<dots> = Some (USB_FND_ERROR, xfer0, ?s1)"
    using assms(3,4) by (simp add: dfu_req_dnload_def dnload_req_def dfu_error_def Let_def)
  finally have d: "dfu_ctrl_req vendor (dnload_req 0xFFFF) xfer0 s = Some (USB_FND_ERROR, xfer0, ?s1)" .
  have i2: "wIndex clrstatus_req = ucast (intf ?s1)"
    using assms(2) by (simp add: clrstatus_req_def)
  have r2: "wRequestAndType clrstatus_req = USB_RT_DFU_CLRSTATUS"
    by (simp add: rt_clrstatus clrstatus_req_def)
  have "dfu_ctrl_req vendor clrstatus_req xfer0 ?s1 =
      Some (USB_FND_SUCCESS, xfer0, ?s1\<lparr>state := dfuIDLE, status := OK\<rparr>)"
    by (rule ctrl_req_clrstatus [OF i2 r2]) simp
  with d show ?thesis by (simp add: evs_reject_def)
qed

lemma run_rejects:
  "k + n \<le> 65537 \<Longrightarrow> state s = dfuIDLE \<Longrightarrow> intf s = 0 \<Longrightarrow> addr_end s = 0x100 \<Longrightarrow>
   addr_recv s = of_nat k * 0xFFFF \<Longrightarrow>
     \<exists>rs s'. dfu_run vendor (concat (replicate n evs_reject)) s = Some (rs, s') \<and>
       (n \<noteq> 0 \<longrightarrow> rs \<noteq> [] \<and> last rs = USB_FND_SUCCESS \<and> status s' = OK) \<and>
       state s' = dfuIDLE \<and> intf s' = 0 \<and> addr_end s' = 0x100 \<and> buf_wr s' = buf_wr s \<and>
       addr_recv s' = of_nat (k + n) * 0xFFFF"
proof (induction n arbitrary: k s)
  case 0
  then show ?case by simp
next
  case (Suc n)
  from Suc.prems(1) have k: "k < 65537" by simp
  from round_above [OF k] Suc.prems(5) have ab: "0x100 < addr_recv s + 0xFFFF" by simp
  let ?s1 = "s\<lparr>addr_recv := addr_recv s + 0xFFFF, state := dfuIDLE, status := OK\<rparr>"
  note r1 = run_reject [OF Suc.prems(2,3,4) ab, of vendor]
  have p: "Suc k + n \<le> 65537" "state ?s1 = dfuIDLE" "intf ?s1 = 0" "addr_end ?s1 = 0x100"
    "addr_recv ?s1 = of_nat (Suc k) * 0xFFFF"
    using Suc.prems by (simp_all add: algebra_simps)
  from Suc.IH [OF p] obtain rs s' where
    r2: "dfu_run vendor (concat (replicate n evs_reject)) ?s1 = Some (rs, s')" and
    f: "n \<noteq> 0 \<longrightarrow> rs \<noteq> [] \<and> last rs = USB_FND_SUCCESS \<and> status s' = OK"
       "state s' = dfuIDLE" "intf s' = 0" "addr_end s' = 0x100" "buf_wr s' = buf_wr ?s1"
       "addr_recv s' = of_nat (Suc k + n) * 0xFFFF"
    by blast
  have run: "dfu_run vendor (concat (replicate (Suc n) evs_reject)) s =
      Some ([USB_FND_ERROR, USB_FND_SUCCESS] @ rs, s')"
    using r1 r2 by (simp add: dfu_run_append)
  have l: "last ([USB_FND_ERROR, USB_FND_SUCCESS] @ rs) = USB_FND_SUCCESS \<and> status s' = OK"
  proof (cases "n = 0")
    case True
    with r2 show ?thesis by auto
  next
    case False
    with f(1) show ?thesis by simp
  qed
  from run l f show ?case by simp
qed


text \<open>
  C4. The claim has every download with \<open>addr_recv + wLength > addr_end\<close> rejected. The
  code does not do that at the failing input: after the 65537 rejected downloads the
  cursor \<open>addr_recv\<close> stands at 0xFFFFFFFF with \<open>addr_end\<close> at 0x100 and the machine back in
  \<open>dfuIDLE\<close>; the download of one byte has \<open>addr_recv + wLength = 2^32\<close>, far above
  \<open>addr_end\<close>, and the handler returns SUCCESS, leaves the machine out of \<open>dfuERROR\<close> and
  the cursor at 0.
\<close>

theorem dnload_past_end_accepted:
  "map_option dnload_view (dfu_run no_vendor evs_wrap (dfu_boot (hw_idle []))) =
     Some (USB_FND_SUCCESS, dfuIDLE, OK, 0xFFFFFFFF, 0x100) \<and>
   map_option dnload_view
     (dfu_run no_vendor (evs_wrap @ [Ev_ctrl_req (dnload_req 1) xfer0]) (dfu_boot (hw_idle []))) =
     Some (USB_FND_SUCCESS, dfuIDLE, OK, 0, 0x100)"
proof -
  from run_select6 [of "hw_idle []"] obtain s6 where
    r6: "dfu_run no_vendor evs_select6 (dfu_boot (hw_idle [])) = Some ([], s6)" and
    f6: "state s6 = dfuIDLE" "intf s6 = 0" "buf_wr s6 = 0" "addr_recv s6 = 0" "addr_end s6 = 0x100"
    by blast
  have "0 + 65537 \<le> (65537 :: nat)" by simp
  from run_rejects [OF this f6(1,2,5), of no_vendor] f6(3,4) have
    "\<exists>rs s. dfu_run no_vendor (concat (replicate 65537 evs_reject)) s6 = Some (rs, s) \<and>
       rs \<noteq> [] \<and> last rs = USB_FND_SUCCESS \<and> status s = OK \<and> state s = dfuIDLE \<and>
       intf s = 0 \<and> addr_end s = 0x100 \<and> buf_wr s = 0 \<and> addr_recv s = 0xFFFFFFFF"
    by simp
  then obtain rs s where
    r: "dfu_run no_vendor (concat (replicate 65537 evs_reject)) s6 = Some (rs, s)" and
    f: "rs \<noteq> []" "last rs = USB_FND_SUCCESS" "status s = OK" "state s = dfuIDLE" "intf s = 0"
       "addr_end s = 0x100" "buf_wr s = 0" "addr_recv s = 0xFFFFFFFF"
    by blast
  from r6 r have w: "dfu_run no_vendor evs_wrap (dfu_boot (hw_idle [])) = Some (rs, s)"
    by (simp add: evs_wrap_def dfu_run_append)
  have a: "wIndex (dnload_req 1) = ucast (intf s)" using f(5) by (simp add: dnload_req_def)
  have b: "wRequestAndType (dnload_req 1) = USB_RT_DFU_DNLOAD"
    by (simp add: rt_dnload dnload_req_def)
  have c: "wLength (dnload_req 1) \<noteq> 0" by (simp add: dnload_req_def)
  have d: "dfu_req_allowed (state s) USB_REQ_DFU_DNLOAD" using f(4) by (simp add: dnload_allowed_iff)
  have e: "buf_wr s \<le> 1" using f(7) by simp
  have n: "\<not> addr_end s < addr_recv s + ucast (wLength (dnload_req 1))"
    using f(6,8) by (simp add: dnload_req_def)
  from dnload_check_32bit [OF a b c d e, of no_vendor xfer0] n obtain xfer' s' where
    l: "dfu_ctrl_req no_vendor (dnload_req 1) xfer0 s = Some (USB_FND_SUCCESS, xfer', s')" and
    g: "state s' = state s" "status s' = status s"
       "addr_recv s' = addr_recv s + ucast (wLength (dnload_req 1))" "addr_end s' = addr_end s"
    by auto
  from w l have "dfu_run no_vendor (evs_wrap @ [Ev_ctrl_req (dnload_req 1) xfer0])
      (dfu_boot (hw_idle [])) = Some (rs @ [USB_FND_SUCCESS], s')"
    by (simp add: dfu_run_append)
  moreover from g f have "dnload_view (rs @ [USB_FND_SUCCESS], s') =
      (USB_FND_SUCCESS, dfuIDLE, OK, 0, 0x100)"
    by (simp add: dnload_view_def dnload_req_def)
  moreover from f have "dnload_view (rs, s) = (USB_FND_SUCCESS, dfuIDLE, OK, 0xFFFFFFFF, 0x100)"
    by (simp add: dnload_view_def)
  ultimately show ?thesis using w by simp
qed

section \<open>The status request\<close>









subsection \<open>The pump loop ends when the flash is ready\<close>















text \<open>
  Over a flash that answers every status read with 0x01, busy, a writer that is in the
  middle of an operation makes no progress: the loop is still running when the recorded
  reads are used up.
\<close>

lemma dfu_pump_busy:
  "flash_op s \<noteq> FL_IDLE \<Longrightarrow> buf_used s \<noteq> 0 \<Longrightarrow> spi_rx (hw s) = replicate n 1 \<Longrightarrow>
     dfu_pump s = None"
proof (induction n arbitrary: s)
  case 0
  then have "flash_read_sr (hw s) = None"
    by (simp add: flash_read_sr_def spi_xfer_def)
  with 0 have "dfu_tick s = None" by (simp add: dfu_tick_def)
  with 0 show ?case by simp
next
  case (Suc n)
  then obtain h1 where
    r: "flash_read_sr (hw s) = Some (1, h1)" and h1: "spi_rx h1 = replicate n 1"
    by (simp add: flash_read_sr_def spi_xfer_def)
  with Suc.prems have t: "dfu_tick s = Some (s\<lparr>hw := h1\<rparr>)" by (simp add: dfu_tick_def)
  have "dfu_pump (s\<lparr>hw := h1\<rparr>) = None"
    using Suc.IH [of "s\<lparr>hw := h1\<rparr>"] Suc.prems h1 by simp
  with t Suc.prems show ?case by simp
qed

subsection \<open>The reply\<close>



subsection \<open>The states the machine can be in\<close>













subsection \<open>The report\<close>




subsection \<open>A flash that holds the buffer\<close>

text \<open>
  When the flash already holds the buffer, the tick that takes the buffer up reads it
  back once, finds nothing to erase or to write, releases the buffer and advances
  \<open>addr_prog\<close> by 4096: one transfer, the verify read.
\<close>

lemma ucast_byte_ready: "(ucast (b :: 8 word) :: 32 word) AND 0x80000000 = 0"
proof (rule bit_word_eqI)
  fix n
  assume "n < LENGTH(32)"
  have "\<not> (bit b n \<and> n = 31)"
    using bit_imp_le_length [of b n] by auto
  moreover have "bit (0x80000000 :: 32 word) n \<longleftrightarrow> n = 31"
  proof -
    have "(0x80000000 :: 32 word) = push_bit 31 1" by simp
    then show ?thesis by (simp only: bit_simps) auto
  qed
  ultimately show "bit (ucast b AND (0x80000000 :: 32 word)) n = bit (0 :: 32 word) n"
    by (auto simp: bit_simps)
qed

lemma ucast_byte_id: "(ucast (ucast (b :: 8 word) :: 32 word) :: 8 word) = b"
  by (rule bit_word_eqI) (auto simp: bit_simps)

lemma spi_verify_bytes_match:
  "\<exists>ew' tx. spi_verify_bytes True w bs (0, ew, 0) (map ucast bs @ rx) = Some ((0, ew', 0), tx, rx)"
proof (induction bs arbitrary: ew)
  case Nil
  show ?case by simp
next
  case (Cons b bs)
  have st: "verify_step b (ucast b) (0, ew, 0) = (0, ew OR (if b \<noteq> 0xFF then 3 else 1), 0)"
    by (simp add: verify_step_def ucast_byte_id)
  from Cons [of "ew OR (if b \<noteq> 0xFF then 3 else 1)"] show ?case
    by (auto simp: Let_def ucast_byte_ready st)
qed

lemma flash_verify_match:
  assumes "spi_rx h = map ucast dst @ rx"
  shows "\<exists>h'. flash_verify dst addr h = Some (0, h') \<and> spi_rx h' = rx"
proof -
  from spi_verify_bytes_match [of False dst 0 rx] obtain ew' tx where
    "spi_verify_bytes True False dst (0, 0, 0) (map ucast dst @ rx) = Some ((0, ew', 0), tx, rx)"
    by blast
  with assms show ?thesis
    by (simp add: flash_verify_def spi_xfer_verify_def spi_verify_bytes_wo Let_def verify_result_def)
qed

text \<open>A whole slot, read through \<^verbatim>\<open>data[k]\<close> with \<open>k\<close> one of the two slots, lies in the array.\<close>

lemma buf_bytes_slot:
  assumes "k \<le> 1"
  shows "buf_bytes s k 0 4096 = map (\<lambda>j. buf_data s (4096 * uint k + int j)) [0..<4096]"
proof -
  from assms have "uint k \<le> 1" by (simp add: word_le_def)
  then have "\<not> 8192 \<le> 4096 * uint k + int j" if "j < 4096" for j
    using that by linarith
  then show ?thesis by (simp add: buf_bytes_def dfu_load_def)
qed

lemma tick_verify_only:
  assumes "flash_op s = FL_IDLE" and "buf_used s \<noteq> 0" and "prog_retry s \<noteq> 0"
    and "buf_rd s \<le> 1"
    and "spi_rx (hw s) = map ucast (buf_bytes s (buf_rd s) 0 4096) @ rx"
  shows "\<exists>s'. dfu_tick s = Some s' \<and> addr_prog s' = addr_prog s + 4096 \<and>
           addr_recv s' = addr_recv s \<and> addr_end s' = addr_end s \<and> state s' = state s \<and>
           status s' = status s \<and> overruns s' = overruns s \<and>
           buf_used s' = buf_used s - 1 \<and> flash_op s' = FL_IDLE \<and>
           length (spi_log (hw s')) = Suc (length (spi_log (hw s)))"
proof -
  let ?s0 = "s\<lparr>flash_op := FL_ERASE, op_len := 4096, op_ofs := 0\<rparr>"
  let ?s1 = "?s0\<lparr>hw := flashchip_select (selected ?s0) (hw ?s0)\<rparr>"
  have bb: "buf_bytes ?s1 (buf_rd ?s1) (op_ofs ?s1) (4 * 1024) = buf_bytes s (buf_rd s) 0 4096"
    using assms(4) by (simp add: buf_bytes_slot)
  have "spi_rx (hw ?s1) = map ucast (buf_bytes s (buf_rd s) 0 4096) @ rx"
    using assms(5) by (simp add: flashchip_select_def)
  from flash_verify_match [OF this, of "addr_prog s"] obtain h1 where
    v: "flash_verify (buf_bytes s (buf_rd s) 0 4096) (addr_prog s) (hw ?s1) = Some (0, h1)"
    by blast
  from flash_verify_SomeD [OF v] have
    lg: "length (spi_log h1) = Suc (length (spi_log (hw s)))"
    by (simp add: flashchip_select_def)
  have "tick_erase ?s1 =
      (case flash_verify (buf_bytes ?s1 (buf_rd ?s1) (op_ofs ?s1) (4 * 1024)) (addr_prog ?s1) (hw ?s1) of
         None \<Rightarrow> None
       | Some (sh, hw1) \<Rightarrow>
           if sh AND 1 = 0 then
             Some (?s1\<lparr>should := sh, hw := hw1, addr_erase := addr_prog s + 4 * 1024,
                       flash_op := FL_PROGRAM\<rparr>)
           else
             (case flash_write_enable hw1 of
                None \<Rightarrow> None
              | Some hw2 \<Rightarrow>
                  (case flash_sector_erase (addr_prog s) hw2 of
                     None \<Rightarrow> None
                   | Some hw3 \<Rightarrow>
                       Some (?s1\<lparr>should := sh, hw := hw3,
                                 prog_retry := retry_dec (prog_retry s),
                                 addr_erase := addr_prog s + 4096\<rparr>))))"
    unfolding tick_erase_def by (simp add: Let_def split: option.splits)
  then have e: "tick_erase ?s1 =
      Some (?s1\<lparr>should := 0, hw := h1, addr_erase := addr_prog s + 4 * 1024, flash_op := FL_PROGRAM\<rparr>)"
    unfolding bb using v by simp
  have t: "dfu_tick s = tick_work ?s0" using assms(1,2) by (simp add: dfu_tick_def)
  have "tick_work ?s0 =
      tick_program (?s1\<lparr>should := 0, hw := h1, addr_erase := addr_prog s + 4 * 1024, flash_op := FL_PROGRAM\<rparr>)"
    using assms(3) e by (simp add: tick_work_def Let_def)
  with t lg show ?thesis by (simp add: tick_program_def)
qed



definition payload_block :: "8 word list" where
  "payload_block = replicate 0x100 0x5A @ replicate 3840 0xFF"

text \<open>The transfer as an accepted download of \<open>n\<close> bytes into slot 0 leaves it.\<close>

definition xfer_slot :: "32 word \<Rightarrow> usb_xfer" where
  "xfer_slot n =
     \<lparr>xfer_data = DfuBuf 0, xfer_len = n, xfer_cb_done = Some Dfu_dnload_done_cb,
      xfer_own = (\<lambda>i. 0)\<rparr>"






section \<open>The receive cursor along runs\<close>

text \<open>
  The writer moves neither \<open>addr_recv\<close> nor \<open>addr_end\<close>, and it stores nothing through a
  buffer pointer.
\<close>

lemma tick_program_recv:
  "tick_program s = Some s' \<Longrightarrow>
     addr_recv s' = addr_recv s \<and> addr_end s' = addr_end s \<and> overruns s' = overruns s"
  by (auto simp: tick_program_def flash_wo_eqs Let_def split: if_splits)

lemma tick_erase_recv:
  "tick_erase s = Some s' \<Longrightarrow>
     addr_recv s' = addr_recv s \<and> addr_end s' = addr_end s \<and> overruns s' = overruns s"
  by (auto simp: tick_erase_def flash_wo_eqs Let_def split: if_splits option.splits)

lemma tick_work_recv:
  "tick_work s = Some s' \<Longrightarrow>
     addr_recv s' = addr_recv s \<and> addr_end s' = addr_end s \<and> overruns s' = overruns s"
  by (auto simp: tick_work_def Let_def tick_fatal_def usb_dfu_cb_reboot_def
        split: if_splits option.splits dest!: tick_erase_recv tick_program_recv)

lemma dfu_tick_recv:
  "dfu_tick s = Some s' \<Longrightarrow>
     addr_recv s' = addr_recv s \<and> addr_end s' = addr_end s \<and> overruns s' = overruns s"
  by (auto simp: dfu_tick_def split: if_splits option.splits dest!: tick_work_recv)

lemma dfu_pump_recv:
  "dfu_pump s = Some s' \<Longrightarrow>
     addr_recv s' = addr_recv s \<and> addr_end s' = addr_end s \<and> overruns s' = overruns s"
proof (induction s rule: dfu_pump.induct)
  case (1 s)
  show ?case
  proof (cases "buf_used s = 0")
    case True
    with "1.prems" show ?thesis by simp
  next
    case False
    with "1.prems" obtain s1 where t: "dfu_tick s = Some s1" and p: "dfu_pump s1 = Some s'"
      by (auto split: option.splits)
    from "1.IH" [OF False t p] dfu_tick_recv [OF t] show ?thesis by simp
  qed
qed

text \<open>
  The offsets behind the array at which the bytes of \<open>addr_recv\<close> (the first member of
  \<^verbatim>\<open>g_dfu.flash\<close>) and of \<open>addr_end\<close> (the fifth) lie.
\<close>

definition cursor_offset :: "nat \<Rightarrow> bool" where
  "cursor_offset k = (k < 4 \<or> (16 \<le> k \<and> k < 20))"

text \<open>
  A store through a transfer pointer moves one of the two cursors only when it lands on
  it, and then the log has it.
\<close>

definition cursors_kept :: "dfu \<Rightarrow> dfu \<Rightarrow> bool" where
  "cursors_kept s s' =
     (\<exists>new. overruns s' = overruns s @ new \<and>
        (list_ex cursor_offset new \<or> addr_recv s' = addr_recv s \<and> addr_end s' = addr_end s))"

lemma cursors_kept_same:
  "overruns s' = overruns s \<Longrightarrow> addr_recv s' = addr_recv s \<Longrightarrow> addr_end s' = addr_end s \<Longrightarrow>
     cursors_kept s s'"
  by (simp add: cursors_kept_def)

lemma cursors_kept_refl: "cursors_kept s s"
  by (simp add: cursors_kept_def)

lemma cursors_kept_trans:
  assumes "cursors_kept s s1" and "cursors_kept s1 s2"
  shows "cursors_kept s s2"
proof -
  from assms(1) obtain n1 where
    a: "overruns s1 = overruns s @ n1"
       "list_ex cursor_offset n1 \<or> addr_recv s1 = addr_recv s \<and> addr_end s1 = addr_end s"
    by (auto simp: cursors_kept_def)
  from assms(2) obtain n2 where
    b: "overruns s2 = overruns s1 @ n2"
       "list_ex cursor_offset n2 \<or> addr_recv s2 = addr_recv s1 \<and> addr_end s2 = addr_end s1"
    by (auto simp: cursors_kept_def)
  from a(1) b(1) have "overruns s2 = overruns s @ (n1 @ n2)" by simp
  moreover from a(2) b(2) have
    "list_ex cursor_offset (n1 @ n2) \<or> addr_recv s2 = addr_recv s \<and> addr_end s2 = addr_end s"
    by auto
  ultimately show ?thesis unfolding cursors_kept_def by blast
qed

lemma flash_store_cursor:
  assumes "flash_store k v s = Some s'" and "\<not> cursor_offset k"
  shows "addr_recv s' = addr_recv s \<and> addr_end s' = addr_end s"
proof -
  from assms(2) have "k div 4 \<noteq> 0" "k div 4 \<noteq> 4"
    by (auto simp: cursor_offset_def)
  with assms(1) show ?thesis
    by (auto simp: flash_store_def Let_def split: if_splits)
qed

lemma store_kept:
  assumes "dfu_store a v s = Some s'"
  shows "cursors_kept s s'"
proof (cases "0 \<le> a \<and> a < 8192")
  case True
  with assms have "s' = s\<lparr>buf_data := (buf_data s)(a := v)\<rparr>" by (simp add: dfu_store_def)
  then show ?thesis by (simp add: cursors_kept_def)
next
  case False
  with assms obtain s1 where f: "flash_store (nat (a - 8192)) v s = Some s1"
    and s': "s' = s1\<lparr>overruns := overruns s1 @ [nat (a - 8192)]\<rparr>"
    by (auto simp: dfu_store_def split: if_splits)
  from flash_store_frame [OF f] have o: "overruns s1 = overruns s" by simp
  show ?thesis
  proof (cases "cursor_offset (nat (a - 8192))")
    case True
    with s' o show ?thesis
      by (auto simp: cursors_kept_def intro!: exI [of _ "[nat (a - 8192)]"])
  next
    case nc: False
    from flash_store_cursor [OF f nc] s' o show ?thesis
      by (auto simp: cursors_kept_def intro!: exI [of _ "[nat (a - 8192)]"])
  qed
qed

lemma store_bytes_kept: "dfu_store_bytes a vs s = Some s' \<Longrightarrow> cursors_kept s s'"
proof (induction vs arbitrary: a s)
  case Nil
  then show ?case by (simp add: cursors_kept_refl)
next
  case (Cons v vs)
  from Cons.prems obtain s1 where
    a: "dfu_store a v s = Some s1" and b: "dfu_store_bytes (a + 1) vs s1 = Some s'"
    by (auto split: option.splits)
  from store_kept [OF a] Cons.IH [OF b] show ?case by (rule cursors_kept_trans)
qed

lemma stores_kept: "dfu_stores ws s = Some s' \<Longrightarrow> cursors_kept s s'"
proof (induction ws arbitrary: s)
  case Nil
  then show ?case by (simp add: cursors_kept_refl)
next
  case (Cons w ws)
  from Cons.prems obtain s1 where
    a: "dfu_store (int (fst w)) (snd w) s = Some s1" and b: "dfu_stores ws s1 = Some s'"
    by (auto split: option.splits)
  from store_kept [OF a] Cons.IH [OF b] show ?case by (rule cursors_kept_trans)
qed

lemma xfer_store_kept:
  "xfer_store i v (xfer, s) = Some (xfer', s') \<Longrightarrow> cursors_kept s s'"
  by (auto simp: xfer_store_def cursors_kept_refl split: xfer_ptr.splits dest: store_kept)

lemma getstatus_store_kept:
  assumes "getstatus_store st (xfer, s) = Some (xfer', s')"
  shows "cursors_kept s s'"
proof -
  from assms obtain p0 p1 p2 p3 p4 where
    a: "xfer_store 0 (dfu_status_val (status s)) (xfer, s) = Some p0"
       "xfer_store 1 (ucast (drop_bit 0 DFU_HOST_POLL_MS AND 0xff)) p0 = Some p1"
       "xfer_store 2 (ucast (drop_bit 8 DFU_HOST_POLL_MS AND 0xff)) p1 = Some p2"
       "xfer_store 3 (ucast (drop_bit 16 DFU_HOST_POLL_MS AND 0xff)) p2 = Some p3"
       "xfer_store 4 (dfu_state_val st) p3 = Some p4"
       "xfer_store 5 0 p4 = Some (xfer', s')"
    by (auto simp: getstatus_store_def split: Option.bind_splits)
  from a(1) have k0: "cursors_kept s (snd p0)" by (cases p0) (auto dest: xfer_store_kept)
  from a(2) have k1: "cursors_kept (snd p0) (snd p1)"
    by (cases p0; cases p1) (auto dest: xfer_store_kept)
  from a(3) have k2: "cursors_kept (snd p1) (snd p2)"
    by (cases p1; cases p2) (auto dest: xfer_store_kept)
  from a(4) have k3: "cursors_kept (snd p2) (snd p3)"
    by (cases p2; cases p3) (auto dest: xfer_store_kept)
  from a(5) have k4: "cursors_kept (snd p3) (snd p4)"
    by (cases p3; cases p4) (auto dest: xfer_store_kept)
  from a(6) have k5: "cursors_kept (snd p4) s'"
    by (cases p4) (auto dest: xfer_store_kept)
  from k0 k1 k2 k3 k4 k5 show ?thesis by (blast intro: cursors_kept_trans)
qed

lemma req_getstatus_kept:
  assumes "dfu_req_getstatus xfer s = Some (r, xfer', s')"
  shows "cursors_kept s s'"
proof -
  from assms obtain st s1 where g: "dfu_getstatus_state s = Some (st, s1)"
    and st: "getstatus_store st (xfer, s1) = Some (xfer', s')"
    by (auto simp: dfu_req_getstatus_def split: option.splits)
  from g have "cursors_kept s s1"
    by (auto simp: dfu_getstatus_state_def simp del: dfu_pump.simps
          split: if_splits dest!: dfu_pump_recv intro!: cursors_kept_same)
  with getstatus_store_kept [OF st] show ?thesis by (blast intro: cursors_kept_trans)
qed

lemma req_upload_kept:
  assumes "dfu_req_upload req xfer s = Some (r, xfer', s')"
  shows "cursors_kept s s'"
proof -
  define xfer1 where "xfer1 = xfer\<lparr>xfer_len := ucast (wLength req), xfer_data := DfuBuf 0\<rparr>"
  define xfer2 where "xfer2 =
    (if addr_read s + xfer_len xfer1 > addr_end s
     then xfer1\<lparr>xfer_len := addr_end s - addr_read s\<rparr> else xfer1)"
  define rd where "rd = flash_read (buf_bytes s 0 0 (unat (xfer_len xfer2))) (addr_read s) (hw s)"
  note d = assms [unfolded dfu_req_upload_def Let_def, folded xfer1_def, folded xfer2_def,
      folded rd_def]
  show ?thesis
  proof (cases "xfer_len xfer2 = 0")
    case True
    with d have "s' = s" by simp
    then show ?thesis by (simp add: cursors_kept_refl)
  next
    case False
    with d obtain bytes hw1 where r: "rd = Some (bytes, hw1)"
      by (cases rd) auto
    with d False obtain s1 where
      st: "dfu_store_bytes 0 bytes (s\<lparr>hw := hw1\<rparr>) = Some s1" and
      s': "s' = s1\<lparr>addr_read := addr_read s1 + xfer_len xfer2\<rparr>"
      by (cases "dfu_store_bytes 0 bytes (s\<lparr>hw := hw1\<rparr>)") auto
    have "cursors_kept s (s\<lparr>hw := hw1\<rparr>)" by (simp add: cursors_kept_same)
    moreover note store_bytes_kept [OF st]
    moreover from s' have "cursors_kept s1 s'" by (simp add: cursors_kept_same)
    ultimately show ?thesis by (blast intro: cursors_kept_trans)
  qed
qed


text \<open>
  Whether the step from \<open>s\<close> to \<open>s'\<close> has logged a store onto one of the two cursors.
\<close>

definition cursor_hits :: "dfu \<Rightarrow> dfu \<Rightarrow> bool" where
  "cursor_hits s s' = list_ex cursor_offset (drop (length (overruns s)) (overruns s'))"

text \<open>
  A step keeps the bound when it leaves \<open>addr_recv \<le> addr_end\<close> as it found it, unless it
  has stored onto a cursor.
\<close>

definition bound_kept :: "dfu \<Rightarrow> dfu \<Rightarrow> bool" where
  "bound_kept s s' =
     (cursor_hits s s' \<or> addr_end s < addr_recv s \<or> addr_recv s' \<le> addr_end s')"

lemma bound_kept_same:
  "overruns s' = overruns s \<Longrightarrow> addr_recv s' = addr_recv s \<Longrightarrow> addr_end s' = addr_end s \<Longrightarrow>
     bound_kept s s'"
  by (auto simp: bound_kept_def)

lemma cursors_bound_kept: "cursors_kept s s' \<Longrightarrow> bound_kept s s'"
  by (auto simp: cursors_kept_def bound_kept_def cursor_hits_def)

text \<open>The download that fails the check of the bound: the one case that gives the bound up.\<close>

definition dnload_over_bound :: "dfu_event \<Rightarrow> dfu \<Rightarrow> bool" where
  "dnload_over_bound ev s =
     (case ev of
        Ev_ctrl_req req xfer \<Rightarrow>
          wIndex req = ucast (intf s) \<and> wRequestAndType req = USB_RT_DFU_DNLOAD \<and>
          dfu_req_allowed (state s) USB_REQ_DFU_DNLOAD \<and> wLength req \<noteq> 0 \<and>
          addr_end s < addr_recv s + ucast (wLength req)
      | _ \<Rightarrow> False)"

lemma req_dnload_bound:
  assumes "dfu_req_dnload req xfer s = Some (r, xfer', s')"
    and "wLength req = 0 \<or> \<not> addr_end s < addr_recv s + ucast (wLength req)"
  shows "bound_kept s s'"
proof (cases "wLength req = 0")
  case True
  with assms(1) have "s' = s\<lparr>state := dfuMANIFEST_SYNC\<rparr>" by (simp add: dfu_req_dnload_def)
  then show ?thesis by (simp add: bound_kept_same)
next
  case False
  with assms(2) have nb: "\<not> addr_end s < addr_recv s + ucast (wLength req)" by simp
  let ?s1 = "s\<lparr>addr_recv := addr_recv s + ucast (wLength req)\<rparr>"
  from False nb assms(1) have "s' = ?s1 \<or> (\<exists>a vs. dfu_store_bytes a vs ?s1 = Some s')"
    by (auto simp: dfu_req_dnload_def Let_def split: if_splits)
  then have "cursors_kept ?s1 s'" by (auto simp: cursors_kept_refl dest: store_bytes_kept)
  with nb show ?thesis by (auto simp: cursors_kept_def bound_kept_def cursor_hits_def)
qed

lemma class_req_bound:
  assumes "dfu_class_req req xfer s = Some (r, xfer', s')"
    and "wRequestAndType req = USB_RT_DFU_DNLOAD \<Longrightarrow>
           wLength req = 0 \<or> \<not> addr_end s < addr_recv s + ucast (wLength req)"
  shows "bound_kept s s'"
proof -
  define rt where "rt = wRequestAndType req"
  note d = assms(1) [unfolded dfu_class_req_def Let_def, folded rt_def]
  consider
    (detach) "rt = USB_RT_DFU_DETACH"
  | (dnload) "rt \<noteq> USB_RT_DFU_DETACH" "rt = USB_RT_DFU_DNLOAD"
  | (upload) "rt \<noteq> USB_RT_DFU_DETACH" "rt \<noteq> USB_RT_DFU_DNLOAD" "rt = USB_RT_DFU_UPLOAD"
  | (getstatus) "rt \<noteq> USB_RT_DFU_DETACH" "rt \<noteq> USB_RT_DFU_DNLOAD" "rt \<noteq> USB_RT_DFU_UPLOAD"
      "rt = USB_RT_DFU_GETSTATUS"
  | (clrstatus) "rt \<noteq> USB_RT_DFU_DETACH" "rt \<noteq> USB_RT_DFU_DNLOAD" "rt \<noteq> USB_RT_DFU_UPLOAD"
      "rt \<noteq> USB_RT_DFU_GETSTATUS" "rt = USB_RT_DFU_CLRSTATUS"
  | (getstate) "rt \<noteq> USB_RT_DFU_DETACH" "rt \<noteq> USB_RT_DFU_DNLOAD" "rt \<noteq> USB_RT_DFU_UPLOAD"
      "rt \<noteq> USB_RT_DFU_GETSTATUS" "rt \<noteq> USB_RT_DFU_CLRSTATUS" "rt = USB_RT_DFU_GETSTATE"
  | (abort) "rt \<noteq> USB_RT_DFU_DETACH" "rt \<noteq> USB_RT_DFU_DNLOAD" "rt \<noteq> USB_RT_DFU_UPLOAD"
      "rt \<noteq> USB_RT_DFU_GETSTATUS" "rt \<noteq> USB_RT_DFU_CLRSTATUS" "rt \<noteq> USB_RT_DFU_GETSTATE"
      "rt = USB_RT_DFU_ABORT"
  | (other) "rt \<noteq> USB_RT_DFU_DETACH" "rt \<noteq> USB_RT_DFU_DNLOAD" "rt \<noteq> USB_RT_DFU_UPLOAD"
      "rt \<noteq> USB_RT_DFU_GETSTATUS" "rt \<noteq> USB_RT_DFU_CLRSTATUS" "rt \<noteq> USB_RT_DFU_GETSTATE"
      "rt \<noteq> USB_RT_DFU_ABORT"
    by blast
  then show ?thesis
  proof cases
    case detach
    with d have "s' = s" by simp
    then show ?thesis by (simp add: bound_kept_same)
  next
    case dnload
    with d have c: "dfu_req_dnload req xfer s = Some (r, xfer', s')" by simp
    from dnload have "wRequestAndType req = USB_RT_DFU_DNLOAD" by (simp add: rt_def)
    from req_dnload_bound [OF c assms(2) [OF this]] show ?thesis .
  next
    case upload
    with d have "dfu_req_upload req xfer s = Some (r, xfer', s')" by simp
    from req_upload_kept [OF this] show ?thesis by (rule cursors_bound_kept)
  next
    case getstatus
    with d have "dfu_req_getstatus xfer s = Some (r, xfer', s')" by simp
    from req_getstatus_kept [OF this] show ?thesis by (rule cursors_bound_kept)
  next
    case clrstatus
    with d have "s' = s\<lparr>state := dfuIDLE, status := OK\<rparr>" by simp
    then show ?thesis by (simp add: bound_kept_same)
  next
    case getstate
    with d have "xfer_store 0 (dfu_state_val (state s)) (xfer, s) = Some (xfer', s')"
      by (auto split: option.splits)
    from xfer_store_kept [OF this] show ?thesis by (rule cursors_bound_kept)
  next
    case abort
    with d have "s' = s\<lparr>state := dfuIDLE\<rparr>" by simp
    then show ?thesis by (simp add: bound_kept_same)
  next
    case other
    with d have "(r, xfer', s') = dfu_error xfer s" by simp
    then show ?thesis by (simp add: dfu_error_def bound_kept_same)
  qed
qed

lemma ctrl_req_bound:
  assumes "dfu_ctrl_req vendor req xfer s = Some (r, xfer', s')"
    and "\<not> dnload_over_bound (Ev_ctrl_req req xfer) s"
  shows "bound_kept s s'"
proof -
  define c1 where "c1 \<longleftrightarrow> wIndex req \<noteq> ucast (intf s)"
  define c2 where "c2 \<longleftrightarrow>
    (USB_REQ_TYPE req OR USB_REQ_RCPT req) = (USB_REQ_TYPE_VENDOR OR USB_REQ_RCPT_INTF)"
  define c3 where "c3 \<longleftrightarrow>
    (USB_REQ_TYPE req OR USB_REQ_RCPT req) \<noteq> (USB_REQ_TYPE_CLASS OR USB_REQ_RCPT_INTF)"
  define c4 where "c4 \<longleftrightarrow> 32 \<le> unat (bRequest req)"
  define c5 where "c5 \<longleftrightarrow> dfu_valid_req (state s) AND push_bit (unat (bRequest req)) 1 = 0"
  note d = assms(1) [unfolded dfu_ctrl_req_def, folded c1_def c2_def c3_def c4_def c5_def]
  consider
    (notmine) "c1" | (vend) "\<not> c1" "c2" | (cont) "\<not> c1" "\<not> c2" "c3"
  | (undef) "\<not> c1" "\<not> c2" "\<not> c3" "c4"
  | (gate) "\<not> c1" "\<not> c2" "\<not> c3" "\<not> c4" "c5"
  | (cls) "\<not> c1" "\<not> c2" "\<not> c3" "\<not> c4" "\<not> c5"
    by blast
  then show ?thesis
  proof cases
    case notmine
    with d have "s' = s" by simp
    then show ?thesis by (simp add: bound_kept_same)
  next
    case vend
    with d obtain ws where "dfu_stores ws s = Some s'"
      by (auto split: prod.splits)
    from stores_kept [OF this] show ?thesis by (rule cursors_bound_kept)
  next
    case cont
    with d have "s' = s" by simp
    then show ?thesis by (simp add: bound_kept_same)
  next
    case undef
    with d show ?thesis by simp
  next
    case gate
    with d have "(r, xfer', s') = dfu_error xfer s" by simp
    then show ?thesis by (simp add: dfu_error_def bound_kept_same)
  next
    case cls
    with d have c: "dfu_class_req req xfer s = Some (r, xfer', s')" by simp
    have "wLength req = 0 \<or> \<not> addr_end s < addr_recv s + ucast (wLength req)"
      if rt: "wRequestAndType req = USB_RT_DFU_DNLOAD"
    proof -
      from rt have "bRequest req = 1" by (simp add: rt_dnload)
      with cls(5) have "dfu_req_allowed (state s) USB_REQ_DFU_DNLOAD"
        by (simp add: c5_def dfu_req_allowed_def req_bit_def USB_REQ_DFU_DNLOAD_def)
      with assms(2) rt cls(1) show ?thesis
        by (auto simp: dnload_over_bound_def c1_def)
    qed
    from class_req_bound [OF c this] show ?thesis .
  qed
qed

lemma zone_order: "i < length dfu_zones \<Longrightarrow> zone_start (dfu_zones ! i) \<le> zone_end (dfu_zones ! i)"
  by (simp add: dfu_zones_def nth_Cons split: nat.splits)

lemma set_intf_order:
  assumes "dfu_set_intf base sel s = Some (USB_FND_SUCCESS, s')"
  shows "addr_prog s' = addr_recv s' \<and> addr_recv s' \<le> addr_end s'"
proof -
  from assms have d: "is_dfu_intf sel"
    by (auto simp: dfu_set_intf_def is_dfu_intf_def split: if_splits)
  have le: "bAlternateSetting sel \<le> 6"
  proof (rule ccontr)
    assume "\<not> bAlternateSetting sel \<le> 6"
    then have "6 < bAlternateSetting sel" by simp
    from dfu_set_intf_oob [OF d this, of base s] assms show False by simp
  qed
  then have "unat (bAlternateSetting sel) < length dfu_zones"
    by (simp add: length_dfu_zones word_le_nat_alt)
  from zone_order [OF this] dfu_set_intf_ok [OF d le, of base s] assms show ?thesis by auto
qed


text \<open>A step that selects the DFU interface puts the cursors at the start of the zone.\<close>

definition step_selects :: "dfu_event \<Rightarrow> bool" where
  "step_selects ev = (case ev of Ev_set_intf base sel \<Rightarrow> is_dfu_intf sel | _ \<Rightarrow> False)"

lemma set_intf_cases:
  assumes "dfu_set_intf base sel s = Some (r, s')"
  shows "(if is_dfu_intf sel then addr_recv s' \<le> addr_end s' else s' = s) \<and>
         overruns s' = overruns s"
proof (cases "is_dfu_intf sel")
  case False
  with assms show ?thesis by (auto simp: dfu_set_intf_def is_dfu_intf_def)
next
  case True
  have le: "bAlternateSetting sel \<le> 6"
  proof (rule ccontr)
    assume "\<not> bAlternateSetting sel \<le> 6"
    then have "6 < bAlternateSetting sel" by simp
    from dfu_set_intf_oob [OF True this, of base s] assms show False by simp
  qed
  from dfu_set_intf_ok [OF True le, of base s] assms(1) have r: "r = USB_FND_SUCCESS"
    and o: "overruns s' = overruns s"
    by auto
  with assms(1) set_intf_order [of base sel s s'] True show ?thesis by simp
qed

lemma dfu_step_bound:
  assumes "dfu_step vendor ev s = Some (rs, s')"
  shows "(step_selects ev \<longrightarrow> addr_recv s' \<le> addr_end s') \<and>
         (\<not> dnload_over_bound ev s \<longrightarrow> bound_kept s s')"
proof (cases ev)
  case Ev_bus_reset
  with assms show ?thesis
    by (auto simp: dfu_bus_reset_def usb_dfu_cb_reboot_def step_selects_def
          intro!: bound_kept_same)
next
  case (Ev_state_chg st)
  with assms show ?thesis
    by (cases "st = USB_DS_CONFIGURED")
      (auto simp: dfu_state_chg_def step_selects_def intro!: bound_kept_same)
next
  case (Ev_ctrl_req req xfer)
  with assms(1) obtain r xfer' where
    c: "dfu_ctrl_req vendor req xfer s = Some (r, xfer', s')"
    by (auto split: option.splits)
  from ctrl_req_bound [OF c] Ev_ctrl_req show ?thesis by (simp add: step_selects_def)
next
  case (Ev_data_out xfer vs)
  with assms(1) have "s' = s \<or> (\<exists>a ws. dfu_store_bytes a ws s = Some s')"
    by (auto simp: usb_data_out_def split: xfer_ptr.splits option.splits)
  then have "cursors_kept s s'" by (auto simp: cursors_kept_refl dest: store_bytes_kept)
  with Ev_data_out show ?thesis
    by (simp add: cursors_bound_kept step_selects_def)
next
  case (Ev_set_intf base sel)
  with assms(1) obtain r where si: "dfu_set_intf base sel s = Some (r, s')"
    by (auto split: option.splits)
  from set_intf_cases [OF si] Ev_set_intf show ?thesis
    by (auto simp: bound_kept_def step_selects_def split: if_splits)
next
  case (Ev_get_intf base)
  with assms show ?thesis by (simp add: bound_kept_same step_selects_def)
next
  case Ev_detach_done
  with assms show ?thesis
    by (auto simp: dfu_detach_done_cb_def usb_dfu_cb_reboot_def step_selects_def
          intro!: bound_kept_same)
next
  case Ev_dnload_done
  with assms show ?thesis
    by (auto simp: dfu_dnload_done_cb_def step_selects_def intro!: bound_kept_same)
next
  case Ev_tick
  with assms(1) have "dfu_tick s = Some s'" by (auto split: option.splits)
  from dfu_tick_recv [OF this] Ev_tick show ?thesis
    by (simp add: bound_kept_same step_selects_def)
qed

text \<open>
  Whether the bound is given up at the end of a run that starts with it given up or not
  (\<open>b\<close>): it is given up by a download that fails the check and by a step that stores
  onto a cursor, and it is back with the next selection of the DFU interface.
\<close>

fun bound_lost :: "vendor_fn \<Rightarrow> dfu_event list \<Rightarrow> dfu \<Rightarrow> bool \<Rightarrow> bool" where
  "bound_lost vendor [] s b = b"
| "bound_lost vendor (ev # evs) s b =
     (case dfu_step vendor ev s of
        None \<Rightarrow> b
      | Some (rs, s') \<Rightarrow>
          bound_lost vendor evs s'
            (if step_selects ev then False
             else b \<or> dnload_over_bound ev s \<or> cursor_hits s s'))"

lemma dfu_run_bound:
  "dfu_run vendor evs s = Some (rs, s') \<Longrightarrow> \<not> bound_lost vendor evs s b \<Longrightarrow>
   b \<or> addr_recv s \<le> addr_end s \<Longrightarrow> addr_recv s' \<le> addr_end s'"
proof (induction evs arbitrary: s b rs)
  case Nil
  then show ?case by simp
next
  case (Cons ev evs)
  obtain r1 s1 where st: "dfu_step vendor ev s = Some (r1, s1)"
    using Cons.prems(1) by (cases "dfu_step vendor ev s") auto
  obtain r2 s2 where rn: "dfu_run vendor evs s1 = Some (r2, s2)"
    using Cons.prems(1) st by (cases "dfu_run vendor evs s1") auto
  from Cons.prems(1) st rn have s2: "s2 = s'" by simp
  note rn = rn [unfolded s2]
  define b1 where "b1 \<longleftrightarrow>
    (if step_selects ev then False else b \<or> dnload_over_bound ev s \<or> cursor_hits s s1)"
  from Cons.prems(2) st have nl: "\<not> bound_lost vendor evs s1 b1" by (simp add: b1_def)
  note sb = dfu_step_bound [OF st]
  have "b1 \<or> addr_recv s1 \<le> addr_end s1"
  proof (cases "step_selects ev")
    case True
    with sb show ?thesis by simp
  next
    case False
    show ?thesis
    proof (cases b1)
      case True
      then show ?thesis by simp
    next
      case nb: False
      with False have f: "\<not> b" "\<not> dnload_over_bound ev s" "\<not> cursor_hits s s1"
        by (simp_all add: b1_def)
      with sb have "bound_kept s s1" by simp
      with f Cons.prems(3) show ?thesis by (auto simp: bound_kept_def)
    qed
  qed
  from Cons.IH [OF rn nl this] show ?case .
qed

lemma bound_lost_append:
  "dfu_run vendor es1 s = Some (rs1, s1) \<Longrightarrow>
     bound_lost vendor (es1 @ es2) s b = bound_lost vendor es2 s1 (bound_lost vendor es1 s b)"
proof (induction es1 arbitrary: s b rs1)
  case Nil
  then show ?case by simp
next
  case (Cons ev es1)
  obtain r1 t1 where st: "dfu_step vendor ev s = Some (r1, t1)"
    using Cons.prems by (cases "dfu_step vendor ev s") auto
  obtain r2 where rn: "dfu_run vendor es1 t1 = Some (r2, s1)"
    using Cons.prems st by (cases "dfu_run vendor es1 t1") auto
  from Cons.IH [OF rn] st show ?case by simp
qed

lemma dnload_over_bound_loses:
  assumes "dnload_over_bound ev s" and "dfu_step vendor ev s = Some (rs, s')"
  shows "rs = [USB_FND_ERROR] \<and> addr_end s' < addr_recv s' \<and> state s' = dfuERROR"
proof -
  from assms(1) obtain req xfer where ev: "ev = Ev_ctrl_req req xfer"
    by (cases ev) (simp_all add: dnload_over_bound_def)
  with assms(1) have h: "wIndex req = ucast (intf s)" "wRequestAndType req = USB_RT_DFU_DNLOAD"
    "dfu_req_allowed (state s) USB_REQ_DFU_DNLOAD" "wLength req \<noteq> 0"
    "addr_end s < addr_recv s + ucast (wLength req)"
    by (simp_all add: dnload_over_bound_def)
  from ctrl_req_dnload [OF h(1,2), of vendor xfer] h(3,4,5) have
    "dfu_ctrl_req vendor req xfer s =
       Some (USB_FND_ERROR, xfer,
             s\<lparr>addr_recv := addr_recv s + ucast (wLength req),
               state := dfuERROR, status := errUNKNOWN\<rparr>)"
    by (simp add: dfu_req_dnload_def dfu_error_def Let_def)
  with assms(2) ev h(5) show ?thesis by auto
qed

text \<open>
  C3, as the code has it. At every observable point of every run from initialisation,
  \<open>addr_recv \<le> addr_end\<close> holds unless, since the last selection of the DFU interface, a
  download has failed the check of the bound or a store through a buffer pointer has
  landed on one of the two cursors; and right after a successful interface selection
  \<open>addr_prog \<le> addr_recv \<le> addr_end\<close> (the cursors stand at the zone start). A download that
  fails the check is rejected and leaves \<open>addr_recv\<close> above \<open>addr_end\<close>: the length stays
  added. A run in which a store leaves \<^verbatim>\<open>g_dfu\<close> altogether has no result in the model.
\<close>

theorem cursor_bound_runs:
  "(dfu_run vendor evs (dfu_boot h) = Some (rs, s) \<longrightarrow>
      \<not> bound_lost vendor evs (dfu_boot h) False \<longrightarrow> addr_recv s \<le> addr_end s) \<and>
   (dfu_set_intf base sel s0 = Some (USB_FND_SUCCESS, s1) \<longrightarrow>
      addr_prog s1 \<le> addr_recv s1 \<and> addr_recv s1 \<le> addr_end s1) \<and>
   (dnload_over_bound ev s0 \<longrightarrow> dfu_step vendor ev s0 = Some (rs', s2) \<longrightarrow>
      rs' = [USB_FND_ERROR] \<and> addr_end s2 < addr_recv s2)"
proof -
  have b: "False \<or> addr_recv (dfu_boot h) \<le> addr_end (dfu_boot h)"
    by (simp add: dfu_boot_def usb_dfu_init_def)
  have "dfu_run vendor evs (dfu_boot h) = Some (rs, s) \<longrightarrow>
      \<not> bound_lost vendor evs (dfu_boot h) False \<longrightarrow> addr_recv s \<le> addr_end s"
    using dfu_run_bound [of vendor evs "dfu_boot h" rs s False] b by blast
  moreover have "dfu_set_intf base sel s0 = Some (USB_FND_SUCCESS, s1) \<longrightarrow>
      addr_prog s1 \<le> addr_recv s1 \<and> addr_recv s1 \<le> addr_end s1"
    using set_intf_order [of base sel s0 s1] by simp
  moreover have "dnload_over_bound ev s0 \<longrightarrow> dfu_step vendor ev s0 = Some (rs', s2) \<longrightarrow>
      rs' = [USB_FND_ERROR] \<and> addr_end s2 < addr_recv s2"
    using dnload_over_bound_loses [of ev s0 vendor rs' s2] by blast
  ultimately show ?thesis by blast
qed

text \<open>
  Zone 6 selected (0x000 to 0x100), then a download of 0x101 bytes: the request is
  rejected, the machine is in \<open>dfuERROR\<close>, and \<open>addr_recv\<close> is 0x101, above \<open>addr_end\<close>.
\<close>

definition cursor_view :: "usb_fnd_resp list \<times> dfu \<Rightarrow> usb_fnd_resp list \<times> dfu_state \<times> 32 word \<times> 32 word \<times> 32 word" where
  "cursor_view p = (fst p, state (snd p), addr_prog (snd p), addr_recv (snd p), addr_end (snd p))"

definition evs_overshoot :: "dfu_event list" where
  "evs_overshoot =
     [Ev_state_chg USB_DS_CONFIGURED,
      Ev_set_intf (dfu_intf_alt 0) (dfu_intf_alt 6),
      Ev_ctrl_req (dnload_req 0x101) xfer0]"

lemmas run_defs =
  dfu_boot_def usb_dfu_init_def dfu_state_chg_def
  dfu_set_intf_def dfu_intf_alt_def zone_at_def dfu_zones_def Let_def
  dfu_ctrl_req_def dnload_req_def clrstatus_req_def usb_consts dfu_class_req_def
  wRequestAndType_def req_bit_def dfu_req_dnload_def dfu_error_def FLASHCHIP_CART_def
  FLASHCHIP_INTERNAL_def dfu_dnload_done_cb_def usb_data_out_def xfer0_def PROG_RETRY_def

theorem rejected_dnload_leaves_cursor_past_end:
  "map_option cursor_view (dfu_run no_vendor evs_overshoot (dfu_boot (hw_idle []))) =
     Some ([USB_FND_ERROR], dfuERROR, 0, 0x101, 0x100)"
  by (simp add: evs_overshoot_def cursor_view_def run_defs)

text \<open>
  The same rejected download, then CLRSTATUS and the selection of zone 6 once more, a
  download of 0x100 bytes that is accepted, its data phase and its commit: the bound is
  given up by the rejection and back with the selection.
\<close>

definition evs_accepted :: "dfu_event list" where
  "evs_accepted =
     [Ev_set_intf (dfu_intf_alt 0) (dfu_intf_alt 6),
      Ev_ctrl_req (dnload_req 0x100) xfer0,
      Ev_data_out (xfer_slot 0x100) (replicate 0x100 0x5A),
      Ev_dnload_done]"

definition evs_reselected :: "dfu_event list" where
  "evs_reselected = evs_overshoot @ [Ev_ctrl_req clrstatus_req xfer0] @ evs_accepted"

theorem cursor_bound_runs_witness:
  "map_option cursor_view (dfu_run no_vendor evs_reselected (dfu_boot (hw_idle []))) =
     Some ([USB_FND_ERROR, USB_FND_SUCCESS, USB_FND_SUCCESS], dfuDNLOAD_SYNC, 0, 0x100, 0x100) \<and>
   bound_lost no_vendor evs_overshoot (dfu_boot (hw_idle [])) False \<and>
   \<not> bound_lost no_vendor evs_reselected (dfu_boot (hw_idle [])) False \<and>
   (\<exists>s. map_option snd (dfu_run no_vendor evs_reselected (dfu_boot (hw_idle []))) = Some s \<and>
      addr_recv s \<le> addr_end s)"
proof -
  have v: "map_option cursor_view (dfu_run no_vendor evs_reselected (dfu_boot (hw_idle []))) =
     Some ([USB_FND_ERROR, USB_FND_SUCCESS, USB_FND_SUCCESS], dfuDNLOAD_SYNC, 0, 0x100, 0x100)"
    by (simp add: evs_reselected_def evs_overshoot_def evs_accepted_def cursor_view_def run_defs
          xfer_slot_def dfu_memset_in)
  have l1: "bound_lost no_vendor evs_overshoot (dfu_boot (hw_idle [])) False"
    by (simp add: evs_overshoot_def run_defs step_selects_def is_dfu_intf_def
          dnload_over_bound_def dfu_req_allowed_def cursor_hits_def)
  have l2: "\<not> bound_lost no_vendor evs_reselected (dfu_boot (hw_idle [])) False"
    by (simp add: evs_reselected_def evs_overshoot_def evs_accepted_def run_defs xfer_slot_def
          dfu_memset_in step_selects_def is_dfu_intf_def dnload_over_bound_def
          dfu_req_allowed_def cursor_hits_def)
  from v obtain rs s where
    r: "dfu_run no_vendor evs_reselected (dfu_boot (hw_idle [])) = Some (rs, s)"
    by (cases "dfu_run no_vendor evs_reselected (dfu_boot (hw_idle []))") auto
  from cursor_bound_runs [of no_vendor evs_reselected "hw_idle []" rs s] r l2
  have "addr_recv s \<le> addr_end s" by simp
  with v l1 l2 r show ?thesis by simp
qed

section \<open>Two runs in which no request is rejected\<close>

lemma dfu_store_bytes_append:
  "dfu_store_bytes a (xs @ ys) s =
     (case dfu_store_bytes a xs s of
        None \<Rightarrow> None
      | Some s' \<Rightarrow> dfu_store_bytes (a + int (length xs)) ys s')"
proof (induction xs arbitrary: a s)
  case Nil
  show ?case by simp
next
  case (Cons x xs)
  show ?case
  proof (cases "dfu_store a x s")
    case None
    then show ?thesis by simp
  next
    case (Some s1)
    with Cons [of "a + 1" s1] show ?thesis by (simp add: add.assoc split: option.splits)
  qed
qed

lemma spi_xfer_bytes_read:
  "length dst = length vs \<Longrightarrow>
     spi_xfer_bytes True False dst (map ucast vs @ rx) =
       Some (vs, replicate (length vs) 0x100, rx)"
proof (induction dst arbitrary: vs)
  case Nil
  then show ?case by simp
next
  case (Cons b dst)
  then obtain v vs' where vs: "vs = v # vs'" and l: "length dst = length vs'"
    by (cases vs) auto
  from Cons.IH [OF l] show ?case
    unfolding vs by (simp add: Let_def ucast_byte_ready ucast_byte_id)
qed

lemma flash_read_bytes:
  assumes "length dst = length vs" and "spi_rx h = map ucast vs @ rx"
  shows "\<exists>h'. flash_read dst addr h = Some (vs, h') \<and> spi_rx h' = rx \<and>
           spi_cs_flash h' = spi_cs_flash h"
  using assms
  by (simp add: flash_read_def spi_xfer_def spi_xfer_bytes_wo spi_xfer_bytes_read Let_def)


text \<open>
  The writer runs ahead of a short download. Zone 6 is selected, a download of 0x100
  bytes is accepted, stored and committed, and one tick runs over a flash that holds the
  padded block already. No request is rejected and no store leaves the array, and the
  writer's cursor ends at 0x1000, past \<open>addr_recv\<close> = \<open>addr_end\<close> = 0x100: the writer adds
  \<^verbatim>\<open>op_len\<close>, 4096, for every buffer, whatever length was received. So \<open>addr_prog \<le> addr_recv\<close>
  is no invariant of the runs.
\<close>

lemma run_accepted:
  "\<exists>s. dfu_run no_vendor evs_accepted (dfu_boot (hw_idle rx)) = Some ([USB_FND_SUCCESS], s) \<and>
       state s = dfuDNLOAD_SYNC \<and> buf_used s = 1 \<and> buf_rd s = 0 \<and> flash_op s = FL_IDLE \<and>
       prog_retry s = 4 \<and> hw s = hw_idle rx \<and> overruns s = [] \<and>
       addr_prog s = 0 \<and> addr_recv s = 0x100 \<and> addr_end s = 0x100 \<and>
       (\<forall>a. 0 \<le> a \<and> a < 4096 \<longrightarrow> buf_data s a = (if a < 256 then 0x5A else 0xFF))"
  by (simp add: evs_accepted_def run_defs xfer_slot_def dfu_memset_in)

theorem writer_overtakes_short_download:
  "map_option cursor_view
     (dfu_run no_vendor (evs_accepted @ [Ev_tick]) (dfu_boot (hw_idle (map ucast payload_block)))) =
   Some ([USB_FND_SUCCESS], dfuDNLOAD_SYNC, 0x1000, 0x100, 0x100) \<and>
   \<not> bound_lost no_vendor (evs_accepted @ [Ev_tick])
       (dfu_boot (hw_idle (map ucast payload_block))) False"
proof -
  from run_accepted [of "map ucast payload_block"] obtain s where
    r: "dfu_run no_vendor evs_accepted (dfu_boot (hw_idle (map ucast payload_block))) =
          Some ([USB_FND_SUCCESS], s)" and
    f: "state s = dfuDNLOAD_SYNC" "buf_used s = 1" "buf_rd s = 0" "flash_op s = FL_IDLE"
       "prog_retry s = 4" "hw s = hw_idle (map ucast payload_block)"
       "addr_prog s = 0" "addr_recv s = 0x100" "addr_end s = 0x100" and
    d: "\<forall>a. 0 \<le> a \<and> a < 4096 \<longrightarrow> buf_data s a = (if a < 256 then 0x5A else 0xFF)"
    by blast
  have bb: "buf_bytes s (buf_rd s) 0 4096 = payload_block"
  proof -
    have "buf_bytes s (buf_rd s) 0 4096 = map (\<lambda>j. buf_data s (int j)) [0..<4096]"
      using f(3) by (simp add: buf_bytes_slot)
    also have "\<dots> = map (\<lambda>j. if j < 256 then 0x5A else 0xFF) [0..<4096]"
      using d by simp
    also have "\<dots> = payload_block"
      by (rule nth_equalityI) (auto simp: payload_block_def nth_append)
    finally show ?thesis .
  qed
  have t0: "flash_op s = FL_IDLE" "buf_used s \<noteq> 0" "prog_retry s \<noteq> 0" "buf_rd s \<le> 1"
    using f by simp_all
  have rx: "spi_rx (hw s) = map ucast (buf_bytes s (buf_rd s) 0 4096) @ []"
    unfolding bb using f(6) by (simp add: hw_idle_def)
  from tick_verify_only [OF t0 rx] obtain s' where
    t: "dfu_tick s = Some s'" and
    g: "addr_prog s' = addr_prog s + 4096" "addr_recv s' = addr_recv s"
       "addr_end s' = addr_end s" "state s' = state s" "overruns s' = overruns s"
    by blast
  from g f have "cursor_view ([USB_FND_SUCCESS], s') =
      ([USB_FND_SUCCESS], dfuDNLOAD_SYNC, 0x1000, 0x100, 0x100)"
    by (simp add: cursor_view_def)
  with t r have v: "map_option cursor_view
     (dfu_run no_vendor (evs_accepted @ [Ev_tick]) (dfu_boot (hw_idle (map ucast payload_block)))) =
   Some ([USB_FND_SUCCESS], dfuDNLOAD_SYNC, 0x1000, 0x100, 0x100)"
    by (simp add: dfu_run_append)
  have "\<not> bound_lost no_vendor evs_accepted (dfu_boot (hw_idle (map ucast payload_block))) False"
    by (simp add: evs_accepted_def run_defs xfer_slot_def dfu_memset_in step_selects_def
          is_dfu_intf_def dnload_over_bound_def dfu_req_allowed_def cursor_hits_def)
  with t g(5) have "\<not> bound_lost no_vendor (evs_accepted @ [Ev_tick])
       (dfu_boot (hw_idle (map ucast payload_block))) False"
    unfolding bound_lost_append [OF r]
    by (simp add: step_selects_def dnload_over_bound_def cursor_hits_def)
  with v show ?thesis by simp
qed

text \<open>
  An upload longer than the array. Zone 0 is selected (0x200000 to 0x1000000) and the
  host asks for 8196 bytes, which the zone has; the flash answers 0xFF throughout. The
  request is accepted, and the last four bytes land on \<open>addr_recv\<close>, which ends at
  0xFFFFFFFF, above \<open>addr_end\<close>; the run is one in which the bound is given up.
\<close>

lemma rt_upload:
  "wRequestAndType req = USB_RT_DFU_UPLOAD \<longleftrightarrow> bRequest req = 2 \<and> bmRequestType req = 0xa1"
proof
  assume a: "wRequestAndType req = USB_RT_DFU_UPLOAD"
  from wRequestAndType_fields [of req] show "bRequest req = 2 \<and> bmRequestType req = 0xa1"
    unfolding a by (simp add: USB_RT_DFU_UPLOAD_def)
next
  assume "bRequest req = 2 \<and> bmRequestType req = 0xa1"
  then show "wRequestAndType req = USB_RT_DFU_UPLOAD"
    by (simp add: wRequestAndType_def USB_RT_DFU_UPLOAD_def)
qed

lemma ctrl_req_upload:
  assumes "wIndex req = ucast (intf s)" and "wRequestAndType req = USB_RT_DFU_UPLOAD"
    and "state s = dfuIDLE"
  shows "dfu_ctrl_req vendor req xfer s = dfu_req_upload req xfer s"
proof -
  from assms(2) have f: "bRequest req = 2" "bmRequestType req = 0xa1"
    by (simp_all add: rt_upload)
  with assms show ?thesis
    by (simp add: dfu_ctrl_req_def dfu_class_req_def req_bit_def usb_consts Let_def)
qed

lemma store_past_array:
  "dfu_store_bytes 0 (replicate 8192 v @ [b0, b1, b2, b3]) s =
     Some (s\<lparr>buf_data := (\<lambda>x. if 0 \<le> x \<and> x < 8192 then v else buf_data s x),
             addr_recv :=
               word_set_byte 3 b3 (word_set_byte 2 b2 (word_set_byte (Suc 0) b1
                 (word_set_byte 0 b0 (addr_recv s)))),
             overruns := overruns s @ [0, 1, 2, 3]\<rparr>)"
proof -
  have "dfu_store_bytes 0 (replicate 8192 v) s =
      Some (s\<lparr>buf_data := (\<lambda>x. if 0 \<le> x \<and> x < 0 + int 8192 then v else buf_data s x)\<rparr>)"
    by (rule dfu_memset_in) simp_all
  then show ?thesis
    by (simp add: dfu_store_bytes_append dfu_store_def flash_store_def Let_def)
qed

definition upload_req :: "16 word \<Rightarrow> usb_ctrl_req" where
  "upload_req n = \<lparr>bmRequestType = 0xa1, bRequest = 2, wValue = 0, wIndex = 0, wLength = n\<rparr>"

definition evs_upload :: "dfu_event list" where
  "evs_upload =
     [Ev_state_chg USB_DS_CONFIGURED,
      Ev_set_intf (dfu_intf_alt 0) (dfu_intf_alt 0),
      Ev_ctrl_req (upload_req 8196) xfer0]"

lemma run_select0:
  "\<exists>s. dfu_run no_vendor [Ev_state_chg USB_DS_CONFIGURED,
            Ev_set_intf (dfu_intf_alt 0) (dfu_intf_alt 0)] (dfu_boot (hw_idle rx)) = Some ([], s) \<and>
       state s = dfuIDLE \<and> intf s = 0 \<and> hw s = hw_idle rx \<and> overruns s = [] \<and>
       addr_prog s = 0x00200000 \<and> addr_recv s = 0x00200000 \<and> addr_read s = 0x00200000 \<and>
       addr_end s = 0x01000000"
  by (simp add: run_defs)

theorem upload_overwrites_receive_cursor:
  "map_option cursor_view
     (dfu_run no_vendor evs_upload (dfu_boot (hw_idle (replicate 8196 0xFF)))) =
   Some ([USB_FND_SUCCESS], dfuIDLE, 0x00200000, 0xFFFFFFFF, 0x01000000) \<and>
   bound_lost no_vendor evs_upload (dfu_boot (hw_idle (replicate 8196 0xFF))) False"
proof -
  let ?rx = "replicate 8196 (0xFF :: 32 word)"
  from run_select0 [of ?rx] obtain s where
    r: "dfu_run no_vendor [Ev_state_chg USB_DS_CONFIGURED,
            Ev_set_intf (dfu_intf_alt 0) (dfu_intf_alt 0)] (dfu_boot (hw_idle ?rx)) = Some ([], s)" and
    f: "state s = dfuIDLE" "intf s = 0" "hw s = hw_idle ?rx"
       "addr_prog s = 0x00200000" "addr_recv s = 0x00200000" "addr_read s = 0x00200000"
       "addr_end s = 0x01000000"
    by blast
  have i: "wIndex (upload_req 8196) = ucast (intf s)" using f(2) by (simp add: upload_req_def)
  have rt: "wRequestAndType (upload_req 8196) = USB_RT_DFU_UPLOAD"
    by (simp add: rt_upload upload_req_def)
  note c = ctrl_req_upload [OF i rt f(1), of no_vendor xfer0]
  let ?vs = "replicate 8196 (0xFF :: 8 word)"
  have l: "length (buf_bytes s 0 0 8196) = length ?vs" by (simp add: length_buf_bytes)
  have rx: "spi_rx (hw s) = map ucast ?vs @ []" using f(3) by (simp add: hw_idle_def)
  from flash_read_bytes [OF l rx, of "addr_read s"] obtain h' where
    fr: "flash_read (buf_bytes s 0 0 8196) (addr_read s) (hw s) = Some (?vs, h')"
    by blast
  have sp: "?vs = replicate 8192 0xFF @ [0xFF, 0xFF, 0xFF, 0xFF]"
  proof -
    have "replicate 4 (0xFF :: 8 word) = [0xFF, 0xFF, 0xFF, 0xFF]"
      by (simp add: eval_nat_numeral)
    moreover have "replicate (8192 + 4) (0xFF :: 8 word) = replicate 8192 0xFF @ replicate 4 0xFF"
      by (rule replicate_add)
    moreover have "(8196 :: nat) = 8192 + 4" by simp
    ultimately show ?thesis by (simp only:)
  qed
  have st: "\<exists>s1. dfu_store_bytes 0 ?vs (s\<lparr>hw := h'\<rparr>) = Some s1 \<and>
      state s1 = dfuIDLE \<and> addr_prog s1 = 0x00200000 \<and> addr_recv s1 = 0xFFFFFFFF \<and>
      addr_end s1 = 0x01000000 \<and> overruns s1 = overruns s @ [0, 1, 2, 3]"
    unfolding sp store_past_array using f by (simp add: word_set_byte_def)
  then obtain s1 where
    s1: "dfu_store_bytes 0 ?vs (s\<lparr>hw := h'\<rparr>) = Some s1" and
    g: "state s1 = dfuIDLE" "addr_prog s1 = 0x00200000" "addr_recv s1 = 0xFFFFFFFF"
       "addr_end s1 = 0x01000000" and
    o: "overruns s1 = overruns s @ [0, 1, 2, 3]"
    by blast
  have "dfu_req_upload (upload_req 8196) xfer0 s =
      Some (USB_FND_SUCCESS, xfer0\<lparr>xfer_len := 8196, xfer_data := DfuBuf 0\<rparr>,
            s1\<lparr>addr_read := addr_read s1 + 8196\<rparr>)"
    using fr s1 f by (simp add: dfu_req_upload_def upload_req_def Let_def)
  with c have last: "dfu_run no_vendor [Ev_ctrl_req (upload_req 8196) xfer0] s =
      Some ([USB_FND_SUCCESS], s1\<lparr>addr_read := addr_read s1 + 8196\<rparr>)"
    by simp
  have e: "evs_upload =
      [Ev_state_chg USB_DS_CONFIGURED, Ev_set_intf (dfu_intf_alt 0) (dfu_intf_alt 0)] @
      [Ev_ctrl_req (upload_req 8196) xfer0]"
    by (simp add: evs_upload_def)
  have "dfu_run no_vendor evs_upload (dfu_boot (hw_idle ?rx)) =
      Some ([USB_FND_SUCCESS], s1\<lparr>addr_read := addr_read s1 + 8196\<rparr>)"
    unfolding e dfu_run_append r using last by simp
  with g have v: "map_option cursor_view
     (dfu_run no_vendor evs_upload (dfu_boot (hw_idle ?rx))) =
   Some ([USB_FND_SUCCESS], dfuIDLE, 0x00200000, 0xFFFFFFFF, 0x01000000)"
    by (simp add: cursor_view_def)
  from last have "dfu_step no_vendor (Ev_ctrl_req (upload_req 8196) xfer0) s =
      Some ([USB_FND_SUCCESS], s1\<lparr>addr_read := addr_read s1 + 8196\<rparr>)"
    by (auto split: option.splits)
  with o have "bound_lost no_vendor evs_upload (dfu_boot (hw_idle ?rx)) False"
    unfolding e bound_lost_append [OF r]
    by (simp add: step_selects_def cursor_hits_def cursor_offset_def)
  with v show ?thesis by simp
qed

end
